theory Spec2Isabelle
  imports Main "HOL-Library.Word"
begin

section \<open>Pixvg: tracing pixel sprites to SVG paths\<close>

text \<open>
  A shallow embedding of \<^verbatim>\<open>src/pixvg.py\<close>. Python objects with identity (the
  nodes of the edge graph) live in an explicit store; exceptions are values of
  type \<open>error\<close>; \<^verbatim>\<open>while\<close> loops that may run forever are partial functions
  into \<open>option\<close>, where \<open>None\<close> means that the loop does not return.
\<close>

subsection \<open>Exceptions and Python / NumPy indexing\<close>

datatype error = ValueError | IndexError | KeyError | AttributeError | OverflowError | IsNotEnclosed

definition ebind :: "error + 'a \<Rightarrow> ('a \<Rightarrow> error + 'b) \<Rightarrow> error + 'b" where
  "ebind m f = (case m of Inl e \<Rightarrow> Inl e | Inr v \<Rightarrow> f v)"

text \<open>
  An index \<open>i\<close> into an axis of length \<open>n\<close>: Python lists and NumPy arrays accept
  \<open>-n \<le> i < n\<close>, a negative index counting from the end, and raise
  \<^verbatim>\<open>IndexError\<close> otherwise.
\<close>

definition py_index :: "nat \<Rightarrow> int \<Rightarrow> nat option" where
  "py_index n i =
     (if 0 \<le> i \<and> i < int n then Some (nat i)
      else if - int n \<le> i \<and> i < 0 then Some (nat (int n + i))
      else None)"

text \<open>A two-dimensional \<^verbatim>\<open>numpy\<close> array is the list of its rows.\<close>

type_synonym ndarray = "int list list"

definition np_zeros :: "nat \<Rightarrow> nat \<Rightarrow> ndarray" where
  "np_zeros rows cols = replicate rows (replicate cols 0)"

definition ncols :: "ndarray \<Rightarrow> nat" where
  "ncols m = (case m of [] \<Rightarrow> 0 | r # _ \<Rightarrow> length r)"

definition is_matrix :: "nat \<Rightarrow> nat \<Rightarrow> 'a list list \<Rightarrow> bool" where
  "is_matrix rows cols m \<longleftrightarrow> length m = rows \<and> list_all (\<lambda>r. length r = cols) m"

text \<open>\<^verbatim>\<open>a[y, x] = v\<close>\<close>

definition np_setitem :: "ndarray \<Rightarrow> int \<Rightarrow> int \<Rightarrow> int \<Rightarrow> error + ndarray" where
  "np_setitem m y x v =
     (case py_index (length m) y of
        None \<Rightarrow> Inl IndexError
      | Some j \<Rightarrow>
          (case py_index (length (m ! j)) x of
             None \<Rightarrow> Inl IndexError
           | Some i \<Rightarrow> Inr (m[j := (m ! j)[i := v]])))"

subsection \<open>Points and point sets\<close>

text \<open>
  \<^verbatim>\<open>Point2D.__eq__\<close> compares the coordinates and \<^verbatim>\<open>Point2D.__hash__\<close> is a
  function of the coordinates, so a Python \<^verbatim>\<open>set\<close> of points is a set of
  coordinate pairs \<open>(x, y)\<close>.
\<close>

type_synonym Point2D = "int \<times> int"

record Point2DSet =
  width :: nat
  height :: nat
  bitmask :: ndarray
  data :: "Point2D set"

definition Point2DSet_init :: "nat \<Rightarrow> nat \<Rightarrow> Point2DSet" where
  "Point2DSet_init w h = \<lparr>width = w, height = h, bitmask = np_zeros h w, data = {}\<rparr>"

text \<open>
  \<^verbatim>\<open>add_point\<close> and \<^verbatim>\<open>remove_point\<close> turn the \<^verbatim>\<open>IndexError\<close> of the array
  store into \<^verbatim>\<open>ValueError\<close>; the \<^verbatim>\<open>KeyError\<close> of \<^verbatim>\<open>set.remove\<close> is not caught.
\<close>

definition add_point :: "'a Point2DSet_scheme \<Rightarrow> Point2D \<Rightarrow> error + 'a Point2DSet_scheme" where
  "add_point s p =
     (case np_setitem (bitmask s) (snd p) (fst p) 1 of
        Inl e \<Rightarrow> Inl (if e = IndexError then ValueError else e)
      | Inr b \<Rightarrow> Inr (s\<lparr>bitmask := b, data := insert p (data s)\<rparr>))"

definition remove_point :: "'a Point2DSet_scheme \<Rightarrow> Point2D \<Rightarrow> error + 'a Point2DSet_scheme" where
  "remove_point s p =
     (case np_setitem (bitmask s) (snd p) (fst p) 0 of
        Inl e \<Rightarrow> Inl (if e = IndexError then ValueError else e)
      | Inr b \<Rightarrow>
          (if p \<in> data s then Inr (s\<lparr>bitmask := b, data := data s - {p}\<rparr>)
           else Inl KeyError))"

definition has_point :: "'a Point2DSet_scheme \<Rightarrow> Point2D \<Rightarrow> bool" where
  "has_point s p \<longleftrightarrow> p \<in> data s"

text \<open>The state of a point set of dimensions \<open>w \<times> h\<close>: the bitmask has that shape.\<close>

definition wf_Point2DSet :: "'a Point2DSet_scheme \<Rightarrow> bool" where
  "wf_Point2DSet s \<longleftrightarrow> is_matrix (height s) (width s) (bitmask s)"

subsection \<open>Formatting numbers\<close>

definition digit_char :: "nat \<Rightarrow> char" where
  "digit_char d = ''0123456789abcdef'' ! d"

fun dec_nat :: "nat \<Rightarrow> string" where
  "dec_nat n = (if n < 10 then [digit_char n] else dec_nat (n div 10) @ [digit_char (n mod 10)])"

fun hex_nat :: "nat \<Rightarrow> string" where
  "hex_nat n = (if n < 16 then [digit_char n] else hex_nat (n div 16) @ [digit_char (n mod 16)])"

declare dec_nat.simps [simp del] hex_nat.simps [simp del]

text \<open>\<^verbatim>\<open>str(i)\<close> for a Python integer.\<close>

definition str_int :: "int \<Rightarrow> string" where
  "str_int i = (if i < 0 then ''-'' @ dec_nat (nat (- i)) else dec_nat (nat i))"

text \<open>The format \<^verbatim>\<open>{i:02x}\<close>: lower-case hexadecimal, zero-padded to two characters.\<close>

definition format_02x :: "int \<Rightarrow> string" where
  "format_02x i =
     (if i < 0 then ''-'' @ hex_nat (nat (- i))
      else if i < 16 then ''0'' @ hex_nat (nat i)
      else hex_nat (nat i))"

subsection \<open>Colors, images and color regions\<close>

datatype Color = Color (red: int) (green: int) (blue: int) (alpha: int)

definition Color_init :: "int \<Rightarrow> int \<Rightarrow> int \<Rightarrow> int \<Rightarrow> error + Color" where
  "Color_init r g b a =
     (if list_all (\<lambda>c. 0 \<le> c \<and> c \<le> 255) [r, g, b, a] then Inr (Color r g b a)
      else Inl ValueError)"

definition to_hex :: "Color \<Rightarrow> string" where
  "to_hex c = ''#'' @ format_02x (red c) @ format_02x (green c) @ format_02x (blue c)
       @ format_02x (alpha c)"

record Color2DRegion = Point2DSet +
  color :: Color

definition Color2DRegion_init :: "Color \<Rightarrow> nat \<Rightarrow> nat \<Rightarrow> Color2DRegion" where
  "Color2DRegion_init c w h =
     \<lparr>width = w, height = h, bitmask = np_zeros h w, data = {}, color = c\<rparr>"

text \<open>
  An image converted to RGBA: \<^verbatim>\<open>img.size\<close> is \<open>(width, height)\<close> and
  \<^verbatim>\<open>np.array(img)\<close> is the list of its rows of four 8-bit channels.
\<close>

type_synonym pixel = "8 word \<times> 8 word \<times> 8 word \<times> 8 word"

record Image =
  size_w :: nat
  size_h :: nat
  pixels :: "pixel list list"

definition wf_Image :: "Image \<Rightarrow> bool" where
  "wf_Image img \<longleftrightarrow> is_matrix (size_h img) (size_w img) (pixels img)"

text \<open>\<^verbatim>\<open>Color(*pixel)\<close>\<close>

definition Color_of_pixel :: "pixel \<Rightarrow> error + Color" where
  "Color_of_pixel p = (case p of (r, g, b, a) \<Rightarrow> Color_init (uint r) (uint g) (uint b) (uint a))"

text \<open>A \<^verbatim>\<open>for\<close> loop whose body may raise.\<close>

fun efold :: "('a \<Rightarrow> 's \<Rightarrow> error + 's) \<Rightarrow> 'a list \<Rightarrow> 's \<Rightarrow> error + 's" where
  "efold f [] s = Inr s"
| "efold f (x # xs) s = (case f x s of Inl e \<Rightarrow> Inl e | Inr s' \<Rightarrow> efold f xs s')"

text \<open>
  A Python \<^verbatim>\<open>dict\<close> keeps its keys in insertion order: an association list, in
  which an assignment replaces the value of a key in place or appends a new key.
\<close>

fun dict_set :: "('k \<times> 'v) list \<Rightarrow> 'k \<Rightarrow> 'v \<Rightarrow> ('k \<times> 'v) list" where
  "dict_set [] k v = [(k, v)]"
| "dict_set ((k', v') # d) k v = (if k' = k then (k, v) # d else (k', v') # dict_set d k v)"

definition dict_get :: "('k \<times> 'v) list \<Rightarrow> 'k \<Rightarrow> error + 'v" where
  "dict_get d k = (case map_of d k of None \<Rightarrow> Inl KeyError | Some v \<Rightarrow> Inr v)"

text \<open>
  The body of the two loops of \<^verbatim>\<open>get_distinct_color_regions\<close>, at the pixel
  \<open>(x, y)\<close>; the state is \<^verbatim>\<open>known_colors\<close> and \<^verbatim>\<open>regions\<close>.
\<close>

definition color_region_step ::
  "Image \<Rightarrow> nat \<Rightarrow> nat \<times> pixel \<Rightarrow> string set \<times> (string \<times> Color2DRegion) list
     \<Rightarrow> error + string set \<times> (string \<times> Color2DRegion) list" where
  "color_region_step img y xp st =
     (case xp of (x, pixel) \<Rightarrow> case st of (known_colors, regions) \<Rightarrow>
        ebind (Color_of_pixel pixel) (\<lambda>c.
          let pix_hex = to_hex c;
              st' = (if pix_hex \<notin> known_colors
                     then (insert pix_hex known_colors,
                           dict_set regions pix_hex (Color2DRegion_init c (size_w img) (size_h img)))
                     else (known_colors, regions))
          in ebind (dict_get (snd st') pix_hex) (\<lambda>region.
               ebind (add_point region (int x, int y)) (\<lambda>region'.
                 Inr (fst st', dict_set (snd st') pix_hex region')))))"

definition get_distinct_color_regions :: "Image \<Rightarrow> error + Color2DRegion list" where
  "get_distinct_color_regions img =
     ebind (efold (\<lambda>(y, row). efold (color_region_step img y) (enumerate 0 row))
              (enumerate 0 (pixels img)) ({}, []))
       (\<lambda>st. Inr (map snd (snd st)))"

subsection \<open>The neighborhood probe\<close>

text \<open>
  The four fields of \<^verbatim>\<open>Neighborhood\<close> that the Von Neumann probe fills; \<open>None\<close>
  is the absent neighbor. The array type has two dimensions, so the
  \<^verbatim>\<open>ndim\<close> check of the source cannot fail.
\<close>

record Neighborhood =
  nb_top :: "int option"
  nb_right :: "int option"
  nb_bottom :: "int option"
  nb_left :: "int option"

text \<open>\<^verbatim>\<open>a[y][x]\<close>\<close>

definition np_getitem :: "ndarray \<Rightarrow> int \<Rightarrow> int \<Rightarrow> error + int" where
  "np_getitem m y x =
     (case py_index (length m) y of
        None \<Rightarrow> Inl IndexError
      | Some j \<Rightarrow>
          (case py_index (length (m ! j)) x of
             None \<Rightarrow> Inl IndexError
           | Some i \<Rightarrow> Inr (m ! j ! i)))"

definition probe :: "bool \<Rightarrow> ndarray \<Rightarrow> int \<Rightarrow> int \<Rightarrow> error + int option" where
  "probe c m y x = (if c then ebind (np_getitem m y x) (\<lambda>v. Inr (Some v)) else Inr None)"

definition np_neumann_neighbors :: "ndarray \<Rightarrow> int \<Rightarrow> int \<Rightarrow> error + Neighborhood" where
  "np_neumann_neighbors matrix x y =
     (let height = int (length matrix) - 1; width = int (ncols matrix) - 1 in
      if x > width \<or> y > height \<or> x < 0 \<or> y < 0 then Inl ValueError
      else
        ebind (probe (y \<noteq> 0) matrix (y - 1) x) (\<lambda>t.
        ebind (probe (x \<noteq> width) matrix y (x + 1)) (\<lambda>r.
        ebind (probe (y \<noteq> height) matrix (y + 1) x) (\<lambda>b.
        ebind (probe (x \<noteq> 0) matrix y (x - 1)) (\<lambda>l.
          Inr \<lparr>nb_top = t, nb_right = r, nb_bottom = b, nb_left = l\<rparr>)))))"

subsection \<open>Nodes, split vertices and the node grid\<close>

text \<open>
  Nodes are objects with identity: a store maps addresses to nodes, and the
  links \<^verbatim>\<open>next\<close> and \<^verbatim>\<open>prev\<close> are addresses. A constructor call appends a
  node to the store. Node comparison \<^verbatim>\<open>==\<close> is \<^verbatim>\<open>Point2D.__eq__\<close>, inherited by
  \<^verbatim>\<open>Node2D\<close> and \<^verbatim>\<open>VirtualNode2D\<close>: equality of the coordinates.
\<close>

type_synonym addr = nat

record Node2D =
  node_x :: int
  node_y :: int
  node_next :: "addr option"
  node_prev :: "addr option"

type_synonym heap = "Node2D list"

definition coords :: "Node2D \<Rightarrow> Point2D" where
  "coords n = (node_x n, node_y n)"

definition set_next :: "heap \<Rightarrow> addr \<Rightarrow> addr option \<Rightarrow> heap" where
  "set_next h a v = h[a := (h ! a)\<lparr>node_next := v\<rparr>]"

definition set_prev :: "heap \<Rightarrow> addr \<Rightarrow> addr option \<Rightarrow> heap" where
  "set_prev h a v = h[a := (h ! a)\<lparr>node_prev := v\<rparr>]"

record VirtualNode2D =
  vx :: int
  vy :: int
  real_nodes :: "addr \<times> addr"
  state :: nat

definition current :: "VirtualNode2D \<Rightarrow> addr" where
  "current v = (if state v = 0 then fst (real_nodes v) else snd (real_nodes v))"

definition flip :: "VirtualNode2D \<Rightarrow> VirtualNode2D" where
  "flip v = v\<lparr>state := (if state v \<noteq> 0 then 0 else 1)\<rparr>"

text \<open>A slot of the grid, and an argument of \<^verbatim>\<open>connect\<close>: a node or a split vertex.\<close>

datatype cell = Real addr | Virtual VirtualNode2D

text \<open>\<^verbatim>\<open>node.current if type(node) == VirtualNode2D else node\<close>\<close>

definition cell_addr :: "cell \<Rightarrow> addr" where
  "cell_addr c = (case c of Real a \<Rightarrow> a | Virtual v \<Rightarrow> current v)"

definition cell_next :: "heap \<Rightarrow> cell \<Rightarrow> addr option" where
  "cell_next h c = node_next (h ! cell_addr c)"

definition cell_prev :: "heap \<Rightarrow> cell \<Rightarrow> addr option" where
  "cell_prev h c = node_prev (h ! cell_addr c)"

definition cell_x :: "heap \<Rightarrow> cell \<Rightarrow> int" where
  "cell_x h c = (case c of Real a \<Rightarrow> node_x (h ! a) | Virtual v \<Rightarrow> vx v)"

definition cell_y :: "heap \<Rightarrow> cell \<Rightarrow> int" where
  "cell_y h c = (case c of Real a \<Rightarrow> node_y (h ! a) | Virtual v \<Rightarrow> vy v)"

definition cell_coords :: "heap \<Rightarrow> cell \<Rightarrow> Point2D" where
  "cell_coords h c = (cell_x h c, cell_y h c)"

record NodeGrid2D =
  grid_width :: nat
  grid_height :: nat
  grid_data :: "cell list list"

text \<open>
  \<^verbatim>\<open>NodeGrid2D(width, height)\<close> on an empty store: the node at \<open>(x, y)\<close> is the
  \<open>(y * width + x)\<close>-th node constructed.
\<close>

definition NodeGrid2D_init :: "nat \<Rightarrow> nat \<Rightarrow> heap \<times> NodeGrid2D" where
  "NodeGrid2D_init w h =
     (concat (map (\<lambda>y. map (\<lambda>x. \<lparr>node_x = int x, node_y = int y, node_next = None,
                                   node_prev = None\<rparr>) [0..<w]) [0..<h]),
      \<lparr>grid_width = w, grid_height = h,
       grid_data = map (\<lambda>y. map (\<lambda>x. Real (y * w + x)) [0..<w]) [0..<h]\<rparr>)"

text \<open>\<^verbatim>\<open>self.data[y][x]\<close> and \<^verbatim>\<open>self.data[y][x] = c\<close> on a Python list of lists.\<close>

definition grid_get :: "NodeGrid2D \<Rightarrow> int \<Rightarrow> int \<Rightarrow> error + cell" where
  "grid_get g y x =
     (case py_index (length (grid_data g)) y of
        None \<Rightarrow> Inl IndexError
      | Some j \<Rightarrow>
          (case py_index (length (grid_data g ! j)) x of
             None \<Rightarrow> Inl IndexError
           | Some i \<Rightarrow> Inr (grid_data g ! j ! i)))"

definition grid_set :: "NodeGrid2D \<Rightarrow> int \<Rightarrow> int \<Rightarrow> cell \<Rightarrow> error + NodeGrid2D" where
  "grid_set g y x c =
     (case py_index (length (grid_data g)) y of
        None \<Rightarrow> Inl IndexError
      | Some j \<Rightarrow>
          (case py_index (length (grid_data g ! j)) x of
             None \<Rightarrow> Inl IndexError
           | Some i \<Rightarrow> Inr (g\<lparr>grid_data := (grid_data g)[j := (grid_data g ! j)[i := c]]\<rparr>)))"

definition top_left_of :: "NodeGrid2D \<Rightarrow> int \<Rightarrow> int \<Rightarrow> error + cell" where
  "top_left_of g x y = grid_get g y x"

definition top_right_of :: "NodeGrid2D \<Rightarrow> int \<Rightarrow> int \<Rightarrow> error + cell" where
  "top_right_of g x y = grid_get g y (x + 1)"

definition bottom_right_of :: "NodeGrid2D \<Rightarrow> int \<Rightarrow> int \<Rightarrow> error + cell" where
  "bottom_right_of g x y = grid_get g (y + 1) (x + 1)"

definition bottom_left_of :: "NodeGrid2D \<Rightarrow> int \<Rightarrow> int \<Rightarrow> error + cell" where
  "bottom_left_of g x y = grid_get g (y + 1) x"

text \<open>
  The body of either \<^verbatim>\<open>if\<close> of \<^verbatim>\<open>connect\<close>: the endpoint \<open>node\<close> has both links,
  so it becomes a split vertex. Slot 0 is a copy of the node with its links and
  the neighbors are re-pointed to it; slot 1 is fresh; the selector is flipped
  to slot 1, whose \<^verbatim>\<open>next\<close> (first \<^verbatim>\<open>if\<close>, \<open>as_source\<close>) or \<^verbatim>\<open>prev\<close> (second
  \<^verbatim>\<open>if\<close>) is set to the other endpoint; the endpoint becomes slot 1 and the split
  vertex is stored in the grid.
\<close>

definition split :: "bool \<Rightarrow> heap \<times> NodeGrid2D \<Rightarrow> cell \<Rightarrow> cell \<Rightarrow> error + (heap \<times> NodeGrid2D) \<times> cell" where
  "split as_source hg node other =
     (case hg of (h, g) \<Rightarrow>
      let x = cell_x h node; y = cell_y h node;
          s0 = length h; s1 = Suc (length h);
          h = h @ [\<lparr>node_x = x, node_y = y, node_next = cell_next h node,
                    node_prev = cell_prev h node\<rparr>,
                   \<lparr>node_x = x, node_y = y, node_next = None, node_prev = None\<rparr>];
          virtual_node = \<lparr>vx = x, vy = y, real_nodes = (s0, s1), state = 0\<rparr>
      in (case node_prev (h ! current virtual_node) of
            None \<Rightarrow> Inl AttributeError
          | Some p \<Rightarrow>
              let h = set_next h p (Some (current virtual_node)) in
              (case node_next (h ! current virtual_node) of
                 None \<Rightarrow> Inl AttributeError
               | Some n \<Rightarrow>
                   let h = set_prev h n (Some (current virtual_node));
                       virtual_node = flip virtual_node;
                       h = (if as_source
                            then set_next h (current virtual_node) (Some (cell_addr other))
                            else set_prev h (current virtual_node) (Some (cell_addr other)));
                       node = Real (current virtual_node)
                   in ebind (grid_set g (cell_y h node) (cell_x h node) (Virtual virtual_node))
                        (\<lambda>g. Inr ((h, g), node)))))"

definition connect :: "heap \<times> NodeGrid2D \<Rightarrow> cell \<Rightarrow> cell \<Rightarrow> error + heap \<times> NodeGrid2D" where
  "connect hg node_1 node_2 =
     ebind (if cell_prev (fst hg) node_1 \<noteq> None \<and> cell_next (fst hg) node_1 \<noteq> None
            then split True hg node_1 node_2 else Inr (hg, node_1)) (\<lambda>(hg, node_1).
     ebind (if cell_prev (fst hg) node_2 \<noteq> None \<and> cell_next (fst hg) node_2 \<noteq> None
            then split False hg node_2 node_1 else Inr (hg, node_2)) (\<lambda>(hg, node_2).
       (case hg of (h, g) \<Rightarrow>
          let h = set_next h (cell_addr node_1) (Some (cell_addr node_2));
              h = set_prev h (cell_addr node_2) (Some (cell_addr node_1))
          in Inr (h, g))))"

subsection \<open>The edge-graph builder\<close>

text \<open>A corner of the lattice, as \<open>(x, y)\<close>, and a call \<^verbatim>\<open>connect(a, b)\<close> on two corners.\<close>

type_synonym corner = "int \<times> int"

definition connect_at :: "corner \<Rightarrow> corner \<Rightarrow> heap \<times> NodeGrid2D \<Rightarrow> error + heap \<times> NodeGrid2D" where
  "connect_at a b hg =
     ebind (grid_get (snd hg) (snd a) (fst a)) (\<lambda>node_1.
     ebind (grid_get (snd hg) (snd b) (fst b)) (\<lambda>node_2.
       connect hg node_1 node_2))"

definition TL :: "int \<Rightarrow> int \<Rightarrow> corner" where "TL x y = (x, y)"
definition TR :: "int \<Rightarrow> int \<Rightarrow> corner" where "TR x y = (x + 1, y)"
definition BR :: "int \<Rightarrow> int \<Rightarrow> corner" where "BR x y = (x + 1, y + 1)"
definition BL :: "int \<Rightarrow> int \<Rightarrow> corner" where "BL x y = (x, y + 1)"

text \<open>\<^verbatim>\<open>v in (0, None)\<close>\<close>

definition zero_or_None :: "int option \<Rightarrow> bool" where
  "zero_or_None v \<longleftrightarrow> v = Some 0 \<or> v = None"

text \<open>The body of the loops of \<^verbatim>\<open>trace_bitmask\<close> at the pixel \<open>(x, y)\<close>.\<close>

definition trace_pixel :: "ndarray \<Rightarrow> int \<Rightarrow> int \<Rightarrow> heap \<times> NodeGrid2D \<Rightarrow> error + heap \<times> NodeGrid2D" where
  "trace_pixel bm y x hg =
     ebind (np_getitem bm y x) (\<lambda>v.
       if v = 1 then
         ebind (np_neumann_neighbors bm x y) (\<lambda>neighbors.
         ebind (if zero_or_None (nb_top neighbors)
                then connect_at (TL x y) (TR x y) hg else Inr hg) (\<lambda>hg.
         ebind (if zero_or_None (nb_right neighbors)
                then connect_at (TR x y) (BR x y) hg else Inr hg) (\<lambda>hg.
         ebind (if zero_or_None (nb_bottom neighbors)
                then connect_at (BR x y) (BL x y) hg else Inr hg) (\<lambda>hg.
               (if zero_or_None (nb_left neighbors)
                then connect_at (BL x y) (TL x y) hg else Inr hg)))))
       else Inr hg)"

definition range :: "nat \<Rightarrow> int list" where
  "range n = map int [0..<n]"

definition trace_bitmask :: "ndarray \<Rightarrow> error + heap \<times> NodeGrid2D" where
  "trace_bitmask bm =
     (let height = length bm; width = ncols bm in
      efold (\<lambda>y. efold (trace_pixel bm y) (range width)) (range height)
        (NodeGrid2D_init (width + 1) (height + 1)))"

subsection \<open>The loop extractor\<close>

text \<open>A \<^verbatim>\<open>for\<close> loop whose body may raise or may not return.\<close>

fun oefold :: "('a \<Rightarrow> 's \<Rightarrow> (error + 's) option) \<Rightarrow> 'a list \<Rightarrow> 's \<Rightarrow> (error + 's) option" where
  "oefold f [] s = Some (Inr s)"
| "oefold f (x # xs) s =
     (case f x s of
        None \<Rightarrow> None
      | Some (Inl e) \<Rightarrow> Some (Inl e)
      | Some (Inr s') \<Rightarrow> oefold f xs s')"

text \<open>
  The \<^verbatim>\<open>while\<close> loop of \<^verbatim>\<open>extract_node_loops\<close>. \<open>origin\<close> holds the coordinates
  of the origin, which is all that \<^verbatim>\<open>node != origin\<close> reads; \<^verbatim>\<open>visited\<close> is a
  set of points, that is of coordinates.
\<close>

partial_function (option) walk :: "heap \<Rightarrow> Point2D \<Rightarrow> addr \<Rightarrow> Point2D set \<Rightarrow> (addr \<times> Point2D set) option" where
  "walk h origin node visited =
     (case node_next (h ! node) of
        None \<Rightarrow> Some (node, visited)
      | Some n \<Rightarrow>
          if coords (h ! node) \<noteq> origin
          then walk h origin n (insert (coords (h ! node)) visited)
          else Some (node, visited))"

declare walk.simps [code]

text \<open>
  A \<^verbatim>\<open>NodeLoop\<close> is its origin node. The body of the loops of
  \<^verbatim>\<open>extract_node_loops\<close> at one slot of the grid; the state is \<^verbatim>\<open>node_loops\<close>
  and \<^verbatim>\<open>visited\<close>.
\<close>

type_synonym NodeLoop = addr

definition extract_cell :: "heap \<Rightarrow> cell \<Rightarrow> NodeLoop list \<times> Point2D set \<Rightarrow> (error + NodeLoop list \<times> Point2D set) option" where
  "extract_cell h c st =
     (case st of (node_loops, visited) \<Rightarrow>
        (case cell_next h c of
           None \<Rightarrow> Some (Inr (node_loops, visited))
         | Some n \<Rightarrow>
             if cell_coords h c \<notin> visited then
               (case walk h (cell_coords h c) n visited of
                  None \<Rightarrow> None
                | Some (node, visited) \<Rightarrow>
                    if coords (h ! node) = cell_coords h c
                    then Some (Inr (node_loops @ [node], visited))
                    else Some (Inl IsNotEnclosed))
             else Some (Inr (node_loops, visited))))"

definition extract_node_loops :: "heap \<times> NodeGrid2D \<Rightarrow> (error + NodeLoop list) option" where
  "extract_node_loops hg =
     (case oefold (\<lambda>row. oefold (extract_cell (fst hg)) row) (grid_data (snd hg)) ([], {}) of
        None \<Rightarrow> None
      | Some (Inl e) \<Rightarrow> Some (Inl e)
      | Some (Inr st) \<Rightarrow> Some (Inr (fst st)))"

subsection \<open>The loop simplifier\<close>

text \<open>
  The \<^verbatim>\<open>while True\<close> loop of \<^verbatim>\<open>NodeLoop.optimize\<close>. Reading \<^verbatim>\<open>.x\<close> of an absent
  link raises \<^verbatim>\<open>AttributeError\<close>. The two assignments of the splice write
  \<^verbatim>\<open>node.prev.next\<close> and then \<^verbatim>\<open>node.next.prev\<close>; neither changes the links of
  \<open>node\<close> itself to another value, so \<^verbatim>\<open>node = node.next\<close> moves to the node read
  before.
\<close>

partial_function (option) optimize_loop :: "heap \<Rightarrow> Point2D \<Rightarrow> addr \<Rightarrow> (error + heap) option" where
  "optimize_loop h origin node =
     (case node_next (h ! node) of
        None \<Rightarrow> Some (Inl AttributeError)
      | Some nx \<Rightarrow>
          (case node_prev (h ! node) of
             None \<Rightarrow> Some (Inl AttributeError)
           | Some pv \<Rightarrow>
               let h' = (if node_x (h ! nx) = node_x (h ! pv) \<or> node_y (h ! nx) = node_y (h ! pv)
                         then set_prev (set_next h pv (Some nx)) nx (Some pv)
                         else h)
               in if coords (h' ! nx) = origin then Some (Inr h')
                  else optimize_loop h' origin nx))"

declare optimize_loop.simps [code]

definition optimize :: "heap \<Rightarrow> NodeLoop \<Rightarrow> (error + heap) option" where
  "optimize h origin = optimize_loop h (coords (h ! origin)) origin"

subsection \<open>The vector emitter\<close>

record SVGPath =
  path_data :: string
  path_color :: string

record SVG =
  svg_paths :: "SVGPath list"
  svg_width :: nat
  svg_height :: nat
  svg_scale :: int

definition SVG_init :: "nat \<Rightarrow> nat \<Rightarrow> int \<Rightarrow> SVG" where
  "SVG_init w h s = \<lparr>svg_paths = [], svg_width = w, svg_height = h, svg_scale = s\<rparr>"

definition svg_m :: "int \<Rightarrow> Node2D \<Rightarrow> string" where
  "svg_m scale n = ''M'' @ str_int (node_x n * scale) @ '','' @ str_int (node_y n * scale)"

definition svg_l :: "int \<Rightarrow> Node2D \<Rightarrow> string" where
  "svg_l scale n = ''L'' @ str_int (node_x n * scale) @ '','' @ str_int (node_y n * scale)"

definition svg_z :: string where
  "svg_z = ''Z''"

text \<open>The \<^verbatim>\<open>while\<close> loop of \<^verbatim>\<open>loop_to_path_data\<close>.\<close>

partial_function (option) path_loop :: "int \<Rightarrow> heap \<Rightarrow> Point2D \<Rightarrow> addr \<Rightarrow> string \<Rightarrow> (error + string) option" where
  "path_loop scale h origin node pd =
     (case node_next (h ! node) of
        None \<Rightarrow> Some (Inl AttributeError)
      | Some nx \<Rightarrow>
          if coords (h ! nx) \<noteq> origin
          then path_loop scale h origin nx (pd @ svg_l scale (h ! nx))
          else Some (Inr (pd @ svg_z)))"

declare path_loop.simps [code]

definition loop_to_path_data :: "int \<Rightarrow> heap \<Rightarrow> NodeLoop \<Rightarrow> (error + string) option" where
  "loop_to_path_data scale h origin =
     path_loop scale h (coords (h ! origin)) origin (svg_m scale (h ! origin))"

definition add_path :: "SVG \<Rightarrow> SVGPath \<Rightarrow> SVG" where
  "add_path svg p = svg\<lparr>svg_paths := svg_paths svg @ [p]\<rparr>"

definition build_paths :: "SVG \<Rightarrow> string" where
  \<open>build_paths svg =
     foldl (\<lambda>path_str path_svg.
        path_str @ ''<path d="'' @ path_data path_svg @ ''" fill="'' @ path_color path_svg
          @ ''" />'' @ [CHR 0x0A])
       [] (svg_paths svg)\<close>

definition build_svg :: "SVG \<Rightarrow> string" where
  \<open>build_svg svg =
     ''<svg version="1.1" xmlns="http://www.w3.org/2000/svg" ''
     @ ''width="'' @ str_int (int (svg_width svg) * svg_scale svg)
     @ ''" height="'' @ str_int (int (svg_height svg) * svg_scale svg)
     @ ''" shape-rendering="crispEdges">'' @ [CHR 0x0A]
     @ build_paths svg @ ''</svg>''\<close>

subsection \<open>The connected-components labeler\<close>

text \<open>
  \<^verbatim>\<open>regions\<close> is \<^verbatim>\<open>np.zeros_like(bitmask)\<close>, an array of 8-bit signed integers,
  and \<^verbatim>\<open>region_id\<close> is a Python integer. Storing a Python integer outside
  \<open>[-128, 127]\<close> into such an array raises \<^verbatim>\<open>OverflowError\<close> (NumPy 2; earlier
  releases wrapped around, with a deprecation warning since 1.24).
\<close>

definition store_int8 :: "ndarray \<Rightarrow> int \<Rightarrow> int \<Rightarrow> int \<Rightarrow> error + ndarray" where
  "store_int8 m y x v =
     (if - 128 \<le> v \<and> v \<le> 127 then np_setitem m y x v else Inl OverflowError)"

definition push_if :: "bool \<Rightarrow> int \<times> int \<Rightarrow> (int \<times> int) list \<Rightarrow> (int \<times> int) list" where
  "push_if c p stack = (if c then p # stack else stack)"

text \<open>
  The \<^verbatim>\<open>while stack\<close> loop; the head of the list is the top of the stack. The
  loop assigns the variables \<^verbatim>\<open>x\<close> and \<^verbatim>\<open>y\<close> of the enclosing \<^verbatim>\<open>for\<close> loops,
  so their last values are part of the result.
\<close>

partial_function (option) flood_fill ::
  "ndarray \<Rightarrow> int \<Rightarrow> ndarray \<Rightarrow> (int \<times> int) list \<Rightarrow> int \<times> int \<Rightarrow> (error + ndarray \<times> int \<times> int) option" where
  "flood_fill bm region_id regions stack xy =
     (case stack of
        [] \<Rightarrow> Some (Inr (regions, xy))
      | (x, y) # stack \<Rightarrow>
          (case np_getitem regions y x of
             Inl e \<Rightarrow> Some (Inl e)
           | Inr v \<Rightarrow>
               if v \<noteq> 0 then flood_fill bm region_id regions stack (x, y)
               else
                 (case store_int8 regions y x region_id of
                    Inl e \<Rightarrow> Some (Inl e)
                  | Inr regions \<Rightarrow>
                      (case np_neumann_neighbors bm x y of
                         Inl e \<Rightarrow> Some (Inl e)
                       | Inr neighbors \<Rightarrow>
                           flood_fill bm region_id regions
                             (push_if (nb_left neighbors = Some 1) (x - 1, y)
                             (push_if (nb_bottom neighbors = Some 1) (x, y + 1)
                             (push_if (nb_right neighbors = Some 1) (x + 1, y)
                             (push_if (nb_top neighbors = Some 1) (x, y - 1) stack))))
                             (x, y)))))"

declare flood_fill.simps [code]

text \<open>
  The body of the inner \<^verbatim>\<open>for x\<close> loop; the state is \<^verbatim>\<open>regions\<close>,
  \<^verbatim>\<open>region_id\<close> and the variable \<^verbatim>\<open>y\<close>, which the outer loop sets and the
  \<^verbatim>\<open>while\<close> loop overwrites.
\<close>

definition label_step :: "ndarray \<Rightarrow> int \<Rightarrow> ndarray \<times> int \<times> int \<Rightarrow> (error + ndarray \<times> int \<times> int) option" where
  "label_step bm x st =
     (case st of (regions, region_id, y) \<Rightarrow>
        (case np_getitem bm y x of
           Inl e \<Rightarrow> Some (Inl e)
         | Inr b \<Rightarrow>
             (case np_getitem regions y x of
                Inl e \<Rightarrow> Some (Inl e)
              | Inr r \<Rightarrow>
                  if b = 1 \<and> r = 0 then
                    (case flood_fill bm region_id regions [(x, y)] (x, y) of
                       None \<Rightarrow> None
                     | Some (Inl e) \<Rightarrow> Some (Inl e)
                     | Some (Inr (regions, xy)) \<Rightarrow> Some (Inr (regions, region_id + 1, snd xy)))
                  else Some (Inr (regions, region_id, y)))))"

definition find_connected_neumann_regions :: "ndarray \<Rightarrow> (error + ndarray) option" where
  "find_connected_neumann_regions bm =
     (let rows = length bm; cols = ncols bm in
      case oefold (\<lambda>y st. case st of (regions, region_id, _) \<Rightarrow>
                     oefold (label_step bm) (range cols) (regions, region_id, y))
             (range rows) (np_zeros rows cols, 1, 0) of
        None \<Rightarrow> None
      | Some (Inl e) \<Rightarrow> Some (Inl e)
      | Some (Inr st) \<Rightarrow> Some (Inr (fst st)))"

text \<open>The body of the loops of \<^verbatim>\<open>split_into_clusters\<close>.\<close>

definition cluster_step ::
  "Color2DRegion \<Rightarrow> nat \<Rightarrow> nat \<times> int \<Rightarrow> int set \<times> (int \<times> Color2DRegion) list
     \<Rightarrow> error + int set \<times> (int \<times> Color2DRegion) list" where
  "cluster_step region y xi st =
     (case xi of (x, ident) \<Rightarrow> case st of (known_clusters, clusters) \<Rightarrow>
        if ident = 0 then Inr st
        else
          let st' = (if ident \<notin> known_clusters
                     then (insert ident known_clusters,
                           dict_set clusters ident
                             (Color2DRegion_init (color region) (width region) (height region)))
                     else (known_clusters, clusters))
          in ebind (dict_get (snd st') ident) (\<lambda>cluster.
               ebind (add_point cluster (int x, int y)) (\<lambda>cluster'.
                 Inr (fst st', dict_set (snd st') ident cluster'))))"

definition clusters_of_labels :: "Color2DRegion \<Rightarrow> ndarray \<Rightarrow> error + Color2DRegion list" where
  "clusters_of_labels region cluster_matrix =
     ebind (efold (\<lambda>(y, row). efold (cluster_step region y) (enumerate 0 row))
              (enumerate 0 cluster_matrix) ({}, []))
       (\<lambda>st. Inr (map snd (snd st)))"

definition split_into_clusters :: "Color2DRegion \<Rightarrow> (error + Color2DRegion list) option" where
  "split_into_clusters region =
     (case find_connected_neumann_regions (bitmask region) of
        None \<Rightarrow> None
      | Some (Inl e) \<Rightarrow> Some (Inl e)
      | Some (Inr cluster_matrix) \<Rightarrow> Some (clusters_of_labels region cluster_matrix))"

subsection \<open>The pipeline for one image\<close>

text \<open>\<^verbatim>\<open>''.join(map(svg.loop_to_path_data, node_loops))\<close>\<close>

definition join_path_data :: "int \<Rightarrow> heap \<Rightarrow> NodeLoop list \<Rightarrow> (error + string) option" where
  "join_path_data scale h node_loops =
     oefold (\<lambda>l acc. case loop_to_path_data scale h l of
                        None \<Rightarrow> None
                      | Some (Inl e) \<Rightarrow> Some (Inl e)
                      | Some (Inr d) \<Rightarrow> Some (Inr (acc @ d)))
       node_loops []"

text \<open>
  The body of \<^verbatim>\<open>for cluster in cluster_groups\<close> in \<^verbatim>\<open>main\<close>: first the
  path data of the cluster's bitmask, then the path added to the document.
\<close>

definition cluster_path_data :: "int \<Rightarrow> ndarray \<Rightarrow> (error + string) option" where
  "cluster_path_data scale bm =
     (case trace_bitmask bm of
        Inl e \<Rightarrow> Some (Inl e)
      | Inr traced_bitmask \<Rightarrow>
          (case extract_node_loops traced_bitmask of
             None \<Rightarrow> None
           | Some (Inl e) \<Rightarrow> Some (Inl e)
           | Some (Inr node_loops) \<Rightarrow>
               (case oefold (\<lambda>l h. optimize h l) node_loops (fst traced_bitmask) of
                  None \<Rightarrow> None
                | Some (Inl e) \<Rightarrow> Some (Inl e)
                | Some (Inr h) \<Rightarrow> join_path_data scale h node_loops)))"

definition process_cluster :: "Color2DRegion \<Rightarrow> SVG \<Rightarrow> (error + SVG) option" where
  "process_cluster cluster svg =
     (case cluster_path_data (svg_scale svg) (bitmask cluster) of
        None \<Rightarrow> None
      | Some (Inl e) \<Rightarrow> Some (Inl e)
      | Some (Inr d) \<Rightarrow>
          Some (Inr (add_path svg \<lparr>path_data = d, path_color = to_hex (color cluster)\<rparr>)))"

text \<open>
  The body of the per-file block of \<^verbatim>\<open>main\<close> between the conversion to RGBA
  and the write of the file: the text of the document.
\<close>

definition cluster_groups_of :: "Color2DRegion list \<Rightarrow> (error + Color2DRegion list) option" where
  "cluster_groups_of color_regions =
     oefold (\<lambda>region acc. case split_into_clusters region of
                             None \<Rightarrow> None
                           | Some (Inl e) \<Rightarrow> Some (Inl e)
                           | Some (Inr cs) \<Rightarrow> Some (Inr (acc @ cs)))
       color_regions []"

definition process_image_svg :: "Image \<Rightarrow> int \<Rightarrow> (error + SVG) option" where
  "process_image_svg img scale =
     (let svg = SVG_init (size_w img) (size_h img) scale in
      case get_distinct_color_regions img of
        Inl e \<Rightarrow> Some (Inl e)
      | Inr regions \<Rightarrow>
          let color_regions = filter (\<lambda>r. alpha (color r) = 255) regions in
          (case cluster_groups_of color_regions of
             None \<Rightarrow> None
           | Some (Inl e) \<Rightarrow> Some (Inl e)
           | Some (Inr cluster_groups) \<Rightarrow> oefold process_cluster cluster_groups svg))"

definition process_image :: "Image \<Rightarrow> int \<Rightarrow> (error + string) option" where
  "process_image img scale =
     (case process_image_svg img scale of
        None \<Rightarrow> None
      | Some (Inl e) \<Rightarrow> Some (Inl e)
      | Some (Inr svg) \<Rightarrow> Some (Inr (build_svg svg)))"

subsection \<open>Notions used in the statements\<close>

text \<open>A color whose four channels are bytes, as every color of a pixel is.\<close>

definition byte_color :: "Color \<Rightarrow> bool" where
  "byte_color c \<longleftrightarrow> list_all (\<lambda>v. 0 \<le> v \<and> v \<le> 255) [red c, green c, blue c, alpha c]"

text \<open>
  The \<open>3 \<times> 3\<close> ring: eight border pixels \<open>p\<close> around a center pixel \<open>q\<close>, and the
  bitmask of the border.
\<close>

definition ring_image :: "pixel \<Rightarrow> pixel \<Rightarrow> Image" where
  "ring_image p q = \<lparr>size_w = 3, size_h = 3, pixels = [[p, p, p], [p, q, p], [p, p, p]]\<rparr>"

definition ring_mask :: ndarray where
  "ring_mask = [[1, 1, 1], [1, 0, 1], [1, 1, 1]]"

text \<open>
  The calls \<^verbatim>\<open>connect(a, b)\<close> that \<^verbatim>\<open>trace_bitmask\<close> makes at one pixel, in their
  order, given the neighborhood of the pixel, and the calls it makes on a whole
  bitmask. \<open>run_connects\<close> makes a list of calls on a grid.
\<close>

definition pixel_connects :: "Neighborhood \<Rightarrow> int \<Rightarrow> int \<Rightarrow> (corner \<times> corner) list" where
  "pixel_connects neighbors x y =
     (if zero_or_None (nb_top neighbors) then [(TL x y, TR x y)] else [])
     @ (if zero_or_None (nb_right neighbors) then [(TR x y, BR x y)] else [])
     @ (if zero_or_None (nb_bottom neighbors) then [(BR x y, BL x y)] else [])
     @ (if zero_or_None (nb_left neighbors) then [(BL x y, TL x y)] else [])"

definition connects_at_pixel :: "ndarray \<Rightarrow> int \<Rightarrow> int \<Rightarrow> error + (corner \<times> corner) list" where
  "connects_at_pixel bm y x =
     ebind (np_getitem bm y x) (\<lambda>v.
       if v = 1 then ebind (np_neumann_neighbors bm x y) (\<lambda>neighbors.
         Inr (pixel_connects neighbors x y))
       else Inr [])"

definition connect_calls :: "ndarray \<Rightarrow> error + (corner \<times> corner) list" where
  "connect_calls bm =
     efold (\<lambda>y. efold (\<lambda>x cs. ebind (connects_at_pixel bm y x) (\<lambda>c. Inr (cs @ c)))
                   (range (ncols bm)))
       (range (length bm)) []"

definition run_connects :: "(corner \<times> corner) list \<Rightarrow> heap \<times> NodeGrid2D \<Rightarrow> error + heap \<times> NodeGrid2D" where
  "run_connects cs hg = efold (\<lambda>(a, b). connect_at a b) cs hg"

text \<open>
  The neighborhood of an in-range pixel \<open>(i, j)\<close> of an \<open>h \<times> w\<close> array, read off the
  array, and the calls of \<^verbatim>\<open>connect\<close> for that pixel.
\<close>

definition neighbors_of :: "nat \<Rightarrow> nat \<Rightarrow> ndarray \<Rightarrow> nat \<Rightarrow> nat \<Rightarrow> Neighborhood" where
  "neighbors_of h w m i j =
     \<lparr>nb_top = (if j \<noteq> 0 then Some (m ! (j - 1) ! i) else None),
      nb_right = (if i + 1 \<noteq> w then Some (m ! j ! (i + 1)) else None),
      nb_bottom = (if j + 1 \<noteq> h then Some (m ! (j + 1) ! i) else None),
      nb_left = (if i \<noteq> 0 then Some (m ! j ! (i - 1)) else None)\<rparr>"

definition pixel_calls :: "nat \<Rightarrow> nat \<Rightarrow> ndarray \<Rightarrow> nat \<Rightarrow> nat \<Rightarrow> (corner \<times> corner) list" where
  "pixel_calls h w bm j i =
     (if bm ! j ! i = 1 then pixel_connects (neighbors_of h w bm i j) (int i) (int j) else [])"


text \<open>
  \<^verbatim>\<open>Point2D.__eq__\<close> on two nodes: the comparison that \<^verbatim>\<open>==\<close>, \<^verbatim>\<open>!=\<close> and set
  membership use for nodes and split vertices.
\<close>

definition node_eq :: "Node2D \<Rightarrow> Node2D \<Rightarrow> bool" where
  "node_eq n m \<longleftrightarrow> node_x n = node_x m \<and> node_y n = node_y m"

text \<open>
  What holds of the slot of a grid at the corner \<open>p\<close>: a node of the store at \<open>p\<close>, or a
  split vertex at \<open>p\<close> whose two slots are different nodes of the store, both at \<open>p\<close>.
\<close>

definition cell_ok :: "heap \<Rightarrow> Point2D \<Rightarrow> cell \<Rightarrow> bool" where
  "cell_ok h p c =
     (case c of
        Real a \<Rightarrow> a < length h \<and> coords (h ! a) = p
      | Virtual v \<Rightarrow>
          (vx v, vy v) = p \<and> fst (real_nodes v) < length h \<and> snd (real_nodes v) < length h
          \<and> fst (real_nodes v) \<noteq> snd (real_nodes v)
          \<and> coords (h ! fst (real_nodes v)) = p \<and> coords (h ! snd (real_nodes v)) = p)"

definition grid_inv :: "heap \<times> NodeGrid2D \<Rightarrow> bool" where
  "grid_inv hg \<longleftrightarrow>
     is_matrix (grid_height (snd hg)) (grid_width (snd hg)) (grid_data (snd hg))
     \<and> (\<forall>j < grid_height (snd hg). \<forall>i < grid_width (snd hg).
          cell_ok (fst hg) (int i, int j) (grid_data (snd hg) ! j ! i))"

text \<open>The store grows and the coordinates of its nodes stay.\<close>

definition heap_ext :: "heap \<Rightarrow> heap \<Rightarrow> bool" where
  "heap_ext h h' \<longleftrightarrow> length h \<le> length h' \<and> (\<forall>a < length h. coords (h' ! a) = coords (h ! a))"

text \<open>
  A cluster of eight pixels that touches itself at the corner \<open>(2, 1)\<close>: the pixels
  \<open>(1, 0)\<close> and \<open>(2, 1)\<close> meet there diagonally. Below it the node grid that
  \<^verbatim>\<open>trace_bitmask\<close> builds for it.
\<close>

definition pinched_mask :: ndarray where
  "pinched_mask = [[1, 1, 0], [1, 0, 1], [1, 1, 1]]"

definition pinched_heap :: heap where
  "pinched_heap =
     [\<lparr>node_x = 0, node_y = 0, node_next = Some 1, node_prev = Some 4\<rparr>,
      \<lparr>node_x = 1, node_y = 0, node_next = Some 2, node_prev = Some 0\<rparr>,
      \<lparr>node_x = 2, node_y = 0, node_next = Some 16, node_prev = Some 1\<rparr>,
      \<lparr>node_x = 3, node_y = 0, node_next = None, node_prev = None\<rparr>,
      \<lparr>node_x = 0, node_y = 1, node_next = Some 0, node_prev = Some 8\<rparr>,
      \<lparr>node_x = 1, node_y = 1, node_next = Some 9, node_prev = Some 16\<rparr>,
      \<lparr>node_x = 2, node_y = 1, node_next = Some 5, node_prev = Some 2\<rparr>,
      \<lparr>node_x = 3, node_y = 1, node_next = Some 11, node_prev = Some 17\<rparr>,
      \<lparr>node_x = 0, node_y = 2, node_next = Some 4, node_prev = Some 12\<rparr>,
      \<lparr>node_x = 1, node_y = 2, node_next = Some 10, node_prev = Some 5\<rparr>,
      \<lparr>node_x = 2, node_y = 2, node_next = Some 17, node_prev = Some 9\<rparr>,
      \<lparr>node_x = 3, node_y = 2, node_next = Some 15, node_prev = Some 7\<rparr>,
      \<lparr>node_x = 0, node_y = 3, node_next = Some 8, node_prev = Some 13\<rparr>,
      \<lparr>node_x = 1, node_y = 3, node_next = Some 12, node_prev = Some 14\<rparr>,
      \<lparr>node_x = 2, node_y = 3, node_next = Some 13, node_prev = Some 15\<rparr>,
      \<lparr>node_x = 3, node_y = 3, node_next = Some 14, node_prev = Some 11\<rparr>,
      \<lparr>node_x = 2, node_y = 1, node_next = Some 5, node_prev = Some 2\<rparr>,
      \<lparr>node_x = 2, node_y = 1, node_next = Some 7, node_prev = Some 10\<rparr>]"

definition pinched_grid :: NodeGrid2D where
  "pinched_grid =
     \<lparr>grid_width = 4, grid_height = 4,
      grid_data =
        [[Real 0, Real 1, Real 2, Real 3],
         [Real 4, Real 5, Virtual \<lparr>vx = 2, vy = 1, real_nodes = (16, 17), state = 1\<rparr>, Real 7],
         [Real 8, Real 9, Real 10, Real 11],
         [Real 12, Real 13, Real 14, Real 15]]\<rparr>"

text \<open>A corner that lies on a grid of \<open>w \<times> h\<close> nodes.\<close>

definition corner_in :: "nat \<Rightarrow> nat \<Rightarrow> corner \<Rightarrow> bool" where
  "corner_in w h p \<longleftrightarrow> 0 \<le> fst p \<and> fst p < int w \<and> 0 \<le> snd p \<and> snd p < int h"

text \<open>
  Path data as the emitter is specified: \<^verbatim>\<open>M\<close> and the first vertex, \<^verbatim>\<open>L\<close> and each
  further vertex, then \<^verbatim>\<open>Z\<close>; and the uniform scaling of a list of vertices.
\<close>

definition draw_vertex :: "Point2D \<Rightarrow> string" where
  "draw_vertex p = str_int (fst p) @ '','' @ str_int (snd p)"

definition draw_path :: "Point2D list \<Rightarrow> string" where
  "draw_path pts =
     (case pts of
        [] \<Rightarrow> []
      | p # ps \<Rightarrow> ''M'' @ draw_vertex p @ concat (map (\<lambda>q. ''L'' @ draw_vertex q) ps) @ ''Z'')"

definition scale_points :: "int \<Rightarrow> Point2D list \<Rightarrow> Point2D list" where
  "scale_points s pts = map (\<lambda>p. (s * fst p, s * snd p)) pts"

text \<open>
  A chain of \<^verbatim>\<open>next\<close> links from the node \<open>a\<close> through the nodes \<open>ns\<close> to the node \<open>b\<close>.
\<close>

fun next_chain :: "heap \<Rightarrow> addr \<Rightarrow> addr list \<Rightarrow> addr \<Rightarrow> bool" where
  "next_chain h a [] b \<longleftrightarrow> node_next (h ! a) = Some b"
| "next_chain h a (n # ns) b \<longleftrightarrow> node_next (h ! a) = Some n \<and> next_chain h n ns b"

text \<open>The pixel at the origin as a loop: the graph that the builder makes of \<open>[[1]]\<close>.\<close>

definition unit_heap :: heap where
  "unit_heap =
     [\<lparr>node_x = 0, node_y = 0, node_next = Some 1, node_prev = Some 2\<rparr>,
      \<lparr>node_x = 1, node_y = 0, node_next = Some 3, node_prev = Some 0\<rparr>,
      \<lparr>node_x = 0, node_y = 1, node_next = Some 0, node_prev = Some 3\<rparr>,
      \<lparr>node_x = 1, node_y = 1, node_next = Some 2, node_prev = Some 1\<rparr>]"

text \<open>
  The two ways in which a walk of the extractor along \<^verbatim>\<open>next\<close> ends, for an origin
  with the coordinates \<open>oc\<close> and a walk that stands at the node \<open>n\<close>: it comes to a
  node with the coordinates of the origin, or it comes, before any such node, to a
  node whose \<^verbatim>\<open>next\<close> is absent.
\<close>

inductive reaches_origin :: "heap \<Rightarrow> Point2D \<Rightarrow> addr \<Rightarrow> bool" where
  here: "coords (h ! n) = oc \<Longrightarrow> reaches_origin h oc n"
| step: "coords (h ! n) \<noteq> oc \<Longrightarrow> node_next (h ! n) = Some m \<Longrightarrow> reaches_origin h oc m
     \<Longrightarrow> reaches_origin h oc n"

inductive dead_ends :: "heap \<Rightarrow> Point2D \<Rightarrow> addr \<Rightarrow> bool" where
  stop: "coords (h ! n) \<noteq> oc \<Longrightarrow> node_next (h ! n) = None \<Longrightarrow> dead_ends h oc n"
| step: "coords (h ! n) \<noteq> oc \<Longrightarrow> node_next (h ! n) = Some m \<Longrightarrow> dead_ends h oc m
     \<Longrightarrow> dead_ends h oc n"

code_pred reaches_origin .

code_pred dead_ends .

text \<open>
  A grid of \<open>2 \<times> 2\<close> nodes after the calls \<^verbatim>\<open>connect\<close> \<open>(0,0) \<rightarrow> (1,0)\<close>,
  \<open>(0,1) \<rightarrow> (1,0)\<close>, \<open>(1,0) \<rightarrow> (1,1)\<close> and \<open>(1,1) \<rightarrow> (0,1)\<close>: from the node \<open>(0,0)\<close> the
  \<^verbatim>\<open>next\<close> links lead into a cycle that does not contain it.
\<close>

definition rho_calls :: "(corner \<times> corner) list" where
  "rho_calls = [((0, 0), (1, 0)), ((0, 1), (1, 0)), ((1, 0), (1, 1)), ((1, 1), (0, 1))]"

definition rho_heap :: heap where
  "rho_heap =
     [\<lparr>node_x = 0, node_y = 0, node_next = Some 1, node_prev = None\<rparr>,
      \<lparr>node_x = 1, node_y = 0, node_next = Some 3, node_prev = Some 2\<rparr>,
      \<lparr>node_x = 0, node_y = 1, node_next = Some 1, node_prev = Some 3\<rparr>,
      \<lparr>node_x = 1, node_y = 1, node_next = Some 2, node_prev = Some 1\<rparr>]"

definition rho_grid :: NodeGrid2D where
  "rho_grid = \<lparr>grid_width = 2, grid_height = 2, grid_data = [[Real 0, Real 1], [Real 2, Real 3]]\<rparr>"

text \<open>
  The distinct elements of a list in the order of their first occurrence, and the
  position of the first 1 in the row-major reading of a bitmask.
\<close>

definition first_occurrences :: "'a list \<Rightarrow> 'a list" where
  "first_occurrences xs = rev (remdups (rev xs))"

definition first_one :: "ndarray \<Rightarrow> nat" where
  "first_one m = length (takeWhile (\<lambda>v. v \<noteq> 1) (concat m))"

text \<open>The color of a pixel, and whether a region is kept by the driver.\<close>

definition pixel_color :: "pixel \<Rightarrow> Color" where
  "pixel_color p = (case p of (r, g, b, a) \<Rightarrow> Color (uint r) (uint g) (uint b) (uint a))"

text \<open>
  The common shape of the two grouping loops (\<^verbatim>\<open>get_distinct_color_regions\<close> and
  \<^verbatim>\<open>split_into_clusters\<close>): an item at \<open>(x, y)\<close> has a key or is skipped; a new key
  gets a fresh region; the point \<open>(x, y)\<close> is added to the region of the key.
\<close>

definition group_step ::
  "('p \<Rightarrow> 'k option) \<Rightarrow> ('p \<Rightarrow> Color2DRegion) \<Rightarrow> nat \<Rightarrow> nat \<times> 'p
     \<Rightarrow> 'k set \<times> ('k \<times> Color2DRegion) list \<Rightarrow> error + 'k set \<times> ('k \<times> Color2DRegion) list" where
  "group_step key mk y xp st =
     (case key (snd xp) of
        None \<Rightarrow> Inr st
      | Some k \<Rightarrow>
          let st' = (if k \<notin> fst st then (insert k (fst st), dict_set (snd st) k (mk (snd xp)))
                     else st)
          in ebind (dict_get (snd st') k) (\<lambda>region.
               ebind (add_point region (int (fst xp), int y)) (\<lambda>region'.
                 Inr (fst st', dict_set (snd st') k region'))))"

text \<open>The items of a list of rows with their row and column numbers, in row-major order.\<close>

definition indexed :: "'p list list \<Rightarrow> (nat \<times> nat \<times> 'p) list" where
  "indexed rows = concat (map (\<lambda>(y, row). map (\<lambda>xp. (y, xp)) (enumerate 0 row)) (enumerate 0 rows))"

text \<open>
  The state of a grouping loop after the items \<open>done\<close>: the keys are the keys seen,
  in the order of their first occurrence, and the region of a key holds the points
  of the items with that key.
\<close>

definition keys_of :: "('p \<Rightarrow> 'k option) \<Rightarrow> (nat \<times> nat \<times> 'p) list \<Rightarrow> 'k list" where
  "keys_of key done = List.map_filter (\<lambda>t. key (snd (snd t))) done"

definition region_of ::
  "('p \<Rightarrow> 'k option) \<Rightarrow> nat \<Rightarrow> nat \<Rightarrow> (nat \<times> nat \<times> 'p) list \<Rightarrow> 'k \<Rightarrow> Color2DRegion \<Rightarrow> bool" where
  "region_of key w h done k r \<longleftrightarrow>
     width r = w \<and> height r = h \<and> is_matrix h w (bitmask r)
     \<and> (\<forall>j < h. \<forall>i < w. bitmask r ! j ! i
           = (if \<exists>p. (j, i, p) \<in> set done \<and> key p = Some k then 1 else 0))
     \<and> data r = {(int i, int j) | i j p. (j, i, p) \<in> set done \<and> key p = Some k}"

definition group_inv ::
  "('p \<Rightarrow> 'k option) \<Rightarrow> ('p \<Rightarrow> Color2DRegion) \<Rightarrow> nat \<Rightarrow> nat \<Rightarrow> (nat \<times> nat \<times> 'p) list
     \<Rightarrow> 'k set \<times> ('k \<times> Color2DRegion) list \<Rightarrow> bool" where
  "group_inv key mk w h done st \<longleftrightarrow>
     fst st = set (map fst (snd st))
     \<and> map fst (snd st) = first_occurrences (keys_of key done)
     \<and> (\<forall>k r. (k, r) \<in> set (snd st) \<longrightarrow>
           region_of key w h done k r \<and> (\<forall>p. key p = Some k \<longrightarrow> color r = color (mk p)))"

section \<open>Properties\<close>

subsection \<open>Adding a point outside the dimensions\<close>

lemma py_index_None_iff: "py_index n i = None \<longleftrightarrow> i < - int n \<or> int n \<le> i"
  by (auto simp: py_index_def)

lemma py_index_Some_less: "py_index n i = Some j \<Longrightarrow> j < n"
  by (auto simp: py_index_def split: if_splits)

lemma np_setitem_IndexError:
  assumes "is_matrix h w m"
    and "x < - int w \<or> int w \<le> x \<or> y < - int h \<or> int h \<le> y"
  shows "np_setitem m y x v = Inl IndexError"
proof (cases "py_index (length m) y")
  case None
  then show ?thesis by (simp add: np_setitem_def)
next
  case (Some j)
  then have j: "j < length m" by (rule py_index_Some_less)
  with assms(1) have len: "length (m ! j) = w"
    by (simp add: is_matrix_def list_all_length)
  from Some have "\<not> (y < - int (length m) \<or> int (length m) \<le> y)"
    using py_index_None_iff [of "length m" y] by simp
  with assms have "x < - int w \<or> int w \<le> x"
    by (simp add: is_matrix_def)
  then have "py_index w x = None" by (simp add: py_index_None_iff)
  with Some len show ?thesis by (simp add: np_setitem_def)
qed

text \<open>
  Far enough outside, the store raises and \<^verbatim>\<open>add_point\<close> reports
  \<^verbatim>\<open>ValueError\<close>: at or beyond the width or height, and below minus the width
  or height.
\<close>

lemma add_point_far_outside:
  assumes "wf_Point2DSet s"
    and "x < - int (width s) \<or> int (width s) \<le> x \<or> y < - int (height s) \<or> int (height s) \<le> y"
  shows "add_point s (x, y) = Inl ValueError"
  using np_setitem_IndexError [of "height s" "width s" "bitmask s" x y 1] assms
  by (simp add: add_point_def wf_Point2DSet_def)

lemma remove_point_far_outside:
  assumes "wf_Point2DSet s"
    and "x < - int (width s) \<or> int (width s) \<le> x \<or> y < - int (height s) \<or> int (height s) \<le> y"
  shows "remove_point s (x, y) = Inl ValueError"
  using np_setitem_IndexError [of "height s" "width s" "bitmask s" x y 0] assms
  by (simp add: remove_point_def wf_Point2DSet_def)

text \<open>
  Claim C10 (every point with \<open>x\<close> outside \<open>[0, W)\<close> or \<open>y\<close> outside \<open>[0, H)\<close> is
  refused with an invalid-argument error and never recorded). The code relies on
  the \<^verbatim>\<open>IndexError\<close> of the array store, which a negative index within
  \<open>[-W, 0)\<close> or \<open>[-H, 0)\<close> does not raise: in a \<open>2 \<times> 2\<close> point set the point
  \<open>(-1, 0)\<close> is accepted, the bitmask cell \<open>(1, 0)\<close> is set and the point
  \<open>(-1, 0)\<close> enters the set.
\<close>

theorem add_point_negative_recorded:
  "add_point (Point2DSet_init 2 2) (- 1, 0) =
     Inr \<lparr>width = 2, height = 2, bitmask = [[0, 1], [0, 0]], data = {(- 1, 0)}\<rparr>"
  by (simp add: add_point_def Point2DSet_init_def np_zeros_def np_setitem_def py_index_def
      numeral_2_eq_2)

subsection \<open>Hexadecimal color keys\<close>

lemma digit_char_inj: "d < 16 \<Longrightarrow> e < 16 \<Longrightarrow> digit_char d = digit_char e \<Longrightarrow> d = e"
proof -
  assume a: "d < 16" "e < 16" "digit_char d = digit_char e"
  have "distinct ''0123456789abcdef''" by simp
  moreover have "length ''0123456789abcdef'' = 16" by simp
  ultimately show ?thesis
    using a nth_eq_iff_index_eq [of "''0123456789abcdef''" d e]
    by (simp add: digit_char_def)
qed

lemma format_02x_byte:
  assumes "0 \<le> v" "v < 256"
  shows "format_02x v = [digit_char (nat v div 16), digit_char (nat v mod 16)]"
proof (cases "v < 16")
  case True
  with assms have "nat v < 16" by simp
  with True assms show ?thesis
    by (simp add: format_02x_def hex_nat.simps [of "nat v"] digit_char_def)
next
  case False
  with assms have "nat v div 16 < 16" by linarith
  with False assms show ?thesis
    by (simp add: format_02x_def hex_nat.simps [of "nat v"] hex_nat.simps [of "nat v div 16"])
qed

lemma format_02x_inj:
  assumes "0 \<le> v" "v < 256" "0 \<le> w" "w < 256" "format_02x v = format_02x w"
  shows "v = w"
proof -
  from assms have "digit_char (nat v div 16) = digit_char (nat w div 16)"
    and "digit_char (nat v mod 16) = digit_char (nat w mod 16)"
    by (simp_all add: format_02x_byte)
  moreover from assms have "nat v div 16 < 16" "nat w div 16 < 16" by linarith+
  ultimately have "nat v div 16 = nat w div 16" "nat v mod 16 = nat w mod 16"
    by (auto intro: digit_char_inj)
  then have "nat v = nat w"
    by (metis div_mult_mod_eq)
  with assms show ?thesis by simp
qed

lemma to_hex_inj:
  assumes "byte_color c" "byte_color c'" "to_hex c = to_hex c'"
  shows "c = c'"
proof -
  have len: "\<And>v. 0 \<le> v \<Longrightarrow> v \<le> 255 \<Longrightarrow> length (format_02x v) = 2"
    by (simp add: format_02x_byte)
  from assms have "format_02x (red c) = format_02x (red c') \<and> format_02x (green c) = format_02x (green c')
      \<and> format_02x (blue c) = format_02x (blue c') \<and> format_02x (alpha c) = format_02x (alpha c')"
    by (simp add: to_hex_def byte_color_def len)
  with assms have "red c = red c' \<and> green c = green c' \<and> blue c = blue c' \<and> alpha c = alpha c'"
    by (auto simp: byte_color_def intro!: format_02x_inj)
  then show ?thesis by (simp add: Color.expand)
qed

lemma Color_of_pixel_eq:
  "Color_of_pixel (r, g, b, a) = Inr (Color (uint r) (uint g) (uint b) (uint a))"
proof -
  have "\<And>w :: 8 word. 0 \<le> uint w \<and> uint w \<le> 255"
    using uint_lt2p [where 'a = 8] by (simp add: zle_diff1_eq [symmetric])
  then show ?thesis by (simp add: Color_of_pixel_def Color_init_def)
qed

subsection \<open>The ring of eight pixels\<close>

lemma ring_regions:
  assumes "to_hex c \<noteq> to_hex c'" "Color_of_pixel p = Inr c" "Color_of_pixel q = Inr c'"
  shows "\<exists>D D'. get_distinct_color_regions (ring_image p q) =
           Inr [\<lparr>width = 3, height = 3, bitmask = ring_mask, data = D, color = c\<rparr>,
                \<lparr>width = 3, height = 3, bitmask = [[0, 0, 0], [0, 1, 0], [0, 0, 0]], data = D',
                  color = c'\<rparr>]"
  using assms assms(1) [symmetric]
  by (simp add: get_distinct_color_regions_def ring_image_def color_region_step_def ebind_def
      Let_def dict_get_def add_point_def np_setitem_def py_index_def Color2DRegion_init_def
      np_zeros_def numeral_3_eq_3 ring_mask_def)

lemma ring_labels: "find_connected_neumann_regions ring_mask = Some (Inr ring_mask)"
  by code_simp

lemma ring_clusters:
  "\<exists>D'. split_into_clusters \<lparr>width = 3, height = 3, bitmask = ring_mask, data = D, color = c\<rparr> =
     Some (Inr [\<lparr>width = 3, height = 3, bitmask = ring_mask, data = D', color = c\<rparr>])"
  by (simp add: split_into_clusters_def ring_labels clusters_of_labels_def)
    (simp add: cluster_step_def ebind_def
      Let_def dict_get_def add_point_def np_setitem_def py_index_def Color2DRegion_init_def
      np_zeros_def numeral_3_eq_3 ring_mask_def)

lemma ring_path_data:
  "cluster_path_data 1 ring_mask = Some (Inr (''M0,0L3,0L3,3L0,3Z'' @ ''M1,1L1,2L2,2L2,1Z''))"
  by code_simp

text \<open>
  Claim C5: a \<open>3 \<times> 3\<close> image whose eight border pixels have one opaque color
  \<open>(r, g, b, 255)\<close> and whose center pixel is not opaque (its alpha is not 255)
  yields, at scale 1, a document with exactly one path; its path data is the outer
  sub-path \<^verbatim>\<open>M0,0L3,0L3,3L0,3Z\<close> followed by the inner sub-path
  \<^verbatim>\<open>M1,1L1,2L2,2L2,1Z\<close>, and its fill is the hex key of the border color.
\<close>

theorem ring_3x3_path:
  assumes "a' \<noteq> 255"
  shows "process_image_svg (ring_image (r, g, b, 255) (r', g', b', a')) 1 =
     Some (Inr \<lparr>svg_paths =
                  [\<lparr>path_data = ''M0,0L3,0L3,3L0,3Z'' @ ''M1,1L1,2L2,2L2,1Z'',
                     path_color = to_hex (Color (uint r) (uint g) (uint b) 255)\<rparr>],
                svg_width = 3, svg_height = 3, svg_scale = 1\<rparr>)"
proof -
  let ?c = "Color (uint r) (uint g) (uint b) 255"
  let ?c' = "Color (uint r') (uint g') (uint b') (uint a')"
  have bytes: "\<And>w :: 8 word. 0 \<le> uint w \<and> uint w \<le> 255"
    using uint_lt2p [where 'a = 8] by (simp add: zle_diff1_eq [symmetric])
  have p: "Color_of_pixel (r, g, b, 255) = Inr ?c" and q: "Color_of_pixel (r', g', b', a') = Inr ?c'"
    by (simp_all add: Color_of_pixel_eq)
  from assms have "uint a' \<noteq> uint (255 :: 8 word)"
    by (simp add: word_uint_eq_iff)
  then have "uint a' \<noteq> 255" by simp
  then have ne: "?c \<noteq> ?c'" by simp
  have "byte_color ?c" "byte_color ?c'"
    by (simp_all add: byte_color_def bytes)
  with ne have hex: "to_hex ?c \<noteq> to_hex ?c'"
    using to_hex_inj by blast
  from ring_regions [OF hex p q] obtain D D' where
    regions: "get_distinct_color_regions (ring_image (r, g, b, 255) (r', g', b', a')) =
           Inr [\<lparr>width = 3, height = 3, bitmask = ring_mask, data = D, color = ?c\<rparr>,
                \<lparr>width = 3, height = 3, bitmask = [[0, 0, 0], [0, 1, 0], [0, 0, 0]], data = D',
                  color = ?c'\<rparr>]"
    by blast
  from ring_clusters [of D ?c] obtain E where
    clusters: "split_into_clusters \<lparr>width = 3, height = 3, bitmask = ring_mask, data = D, color = ?c\<rparr> =
     Some (Inr [\<lparr>width = 3, height = 3, bitmask = ring_mask, data = E, color = ?c\<rparr>])"
    by blast
  have size: "\<And>p q. size_w (ring_image p q) = 3 \<and> size_h (ring_image p q) = 3"
    by (simp add: ring_image_def)
  show ?thesis
    using \<open>uint a' \<noteq> 255\<close>
    by (simp add: process_image_svg_def regions cluster_groups_of_def clusters process_cluster_def
        SVG_init_def ring_path_data add_path_def size)
qed

theorem ring_3x3_path_witness:
  "(0 :: 8 word) \<noteq> 255 \<and>
   process_image_svg (ring_image (255, 0, 0, 255) (0, 0, 0, 0)) 1 =
     Some (Inr \<lparr>svg_paths =
                  [\<lparr>path_data = ''M0,0L3,0L3,3L0,3ZM1,1L1,2L2,2L2,1Z'', path_color = ''#ff0000ff''\<rparr>],
                svg_width = 3, svg_height = 3, svg_scale = 1\<rparr>)"
proof -
  have h: "(0 :: 8 word) \<noteq> 255" by simp
  have "to_hex (Color (uint (255 :: 8 word)) (uint (0 :: 8 word)) (uint (0 :: 8 word)) 255) = ''#ff0000ff''"
    by code_simp
  with h ring_3x3_path [OF h, of 255 0 0 0 0 0] show ?thesis by simp
qed


subsection \<open>The per-pixel rule of the edge-graph builder\<close>

lemma ebind_Inr [simp]: "ebind (Inr v) f = f v"
  by (simp add: ebind_def)

lemma ebind_Inl [simp]: "ebind (Inl e) f = Inl e"
  by (simp add: ebind_def)

lemma ebind_eq_Inr: "ebind m f = Inr r \<longleftrightarrow> (\<exists>v. m = Inr v \<and> f v = Inr r)"
  by (cases m) simp_all

lemma efold_append: "efold f (xs @ ys) s = ebind (efold f xs s) (efold f ys)"
  by (induction xs arbitrary: s) (auto split: sum.splits)

lemma run_connects_Nil [simp]: "run_connects [] hg = Inr hg"
  by (simp add: run_connects_def)

lemma ebind_Inr_right [simp]: "ebind m Inr = m"
  by (cases m) simp_all

lemma ebind_assoc: "ebind (ebind m f) g = ebind m (\<lambda>v. ebind (f v) g)"
  by (cases m) simp_all

lemma run_connects_Cons: "run_connects ((a, b) # cs) hg = ebind (connect_at a b hg) (run_connects cs)"
  unfolding run_connects_def by (simp add: ebind_def split: sum.splits)

lemma run_connects_append: "run_connects (cs @ ds) hg = ebind (run_connects cs hg) (run_connects ds)"
  unfolding run_connects_def by (simp add: efold_append)

lemma run_connects_Nil_fun [simp]: "run_connects [] = Inr"
  by (rule ext) simp

lemma run_connects_if:
  "run_connects (if c then [(a, b)] else []) hg = (if c then connect_at a b hg else Inr hg)"
  by (cases c) (simp_all add: run_connects_Cons)

lemma run_pixel_connects:
  "run_connects (pixel_connects neighbors x y) hg =
     ebind (if zero_or_None (nb_top neighbors)
            then connect_at (TL x y) (TR x y) hg else Inr hg) (\<lambda>hg.
     ebind (if zero_or_None (nb_right neighbors)
            then connect_at (TR x y) (BR x y) hg else Inr hg) (\<lambda>hg.
     ebind (if zero_or_None (nb_bottom neighbors)
            then connect_at (BR x y) (BL x y) hg else Inr hg) (\<lambda>hg.
           (if zero_or_None (nb_left neighbors)
            then connect_at (BL x y) (TL x y) hg else Inr hg))))"
  unfolding pixel_connects_def run_connects_append run_connects_if ..

lemma trace_pixel_connects:
  assumes "connects_at_pixel bm y x = Inr cs"
  shows "trace_pixel bm y x hg = run_connects cs hg"
proof (cases "np_getitem bm y x")
  case (Inl e)
  with assms show ?thesis by (simp add: connects_at_pixel_def)
next
  case (Inr v)
  show ?thesis
  proof (cases "v = 1")
    case True
    with Inr assms obtain neighbors where nb: "np_neumann_neighbors bm x y = Inr neighbors"
      and cs: "cs = pixel_connects neighbors x y"
      by (auto simp: connects_at_pixel_def ebind_eq_Inr)
    from Inr True nb show ?thesis
      unfolding cs run_pixel_connects by (simp add: trace_pixel_def)
  next
    case False
    with Inr assms show ?thesis
      by (simp add: connects_at_pixel_def trace_pixel_def)
  qed
qed

lemma trace_row_connects:
  "efold (\<lambda>x cs. ebind (connects_at_pixel bm y x) (\<lambda>c. Inr (cs @ c))) xs cs0 = Inr cs
   \<Longrightarrow> \<exists>ds. cs = cs0 @ ds \<and> (\<forall>hg. efold (trace_pixel bm y) xs hg = run_connects ds hg)"
proof (induction xs arbitrary: cs0)
  case Nil
  then show ?case by simp
next
  case (Cons x xs)
  from Cons.prems obtain c where c: "connects_at_pixel bm y x = Inr c"
    and rest: "efold (\<lambda>x cs. ebind (connects_at_pixel bm y x) (\<lambda>c. Inr (cs @ c))) xs (cs0 @ c) = Inr cs"
    by (auto simp: ebind_def split: sum.splits)
  from Cons.IH [OF rest] obtain ds where ds: "cs = (cs0 @ c) @ ds"
    and run: "\<And>hg. efold (trace_pixel bm y) xs hg = run_connects ds hg"
    by blast
  have "efold (trace_pixel bm y) (x # xs) hg = run_connects (c @ ds) hg" for hg
    by (simp add: trace_pixel_connects [OF c] run_connects_append run ebind_def split: sum.splits)
  with ds show ?case by simp
qed

lemma trace_rows_connects:
  "efold (\<lambda>y. efold (\<lambda>x cs. ebind (connects_at_pixel bm y x) (\<lambda>c. Inr (cs @ c))) xs) ys cs0 = Inr cs
   \<Longrightarrow> \<exists>ds. cs = cs0 @ ds \<and> (\<forall>hg. efold (\<lambda>y. efold (trace_pixel bm y) xs) ys hg = run_connects ds hg)"
proof (induction ys arbitrary: cs0)
  case Nil
  then show ?case by simp
next
  case (Cons y ys)
  from Cons.prems obtain c1 where c1: "efold (\<lambda>x cs. ebind (connects_at_pixel bm y x) (\<lambda>c. Inr (cs @ c))) xs cs0 = Inr c1"
    and rest: "efold (\<lambda>y. efold (\<lambda>x cs. ebind (connects_at_pixel bm y x) (\<lambda>c. Inr (cs @ c))) xs) ys c1 = Inr cs"
    by (auto split: sum.splits)
  from trace_row_connects [OF c1] obtain d1 where d1: "c1 = cs0 @ d1"
    and run1: "\<And>hg. efold (trace_pixel bm y) xs hg = run_connects d1 hg"
    by blast
  from Cons.IH [OF rest] obtain ds where ds: "cs = c1 @ ds"
    and run: "\<And>hg. efold (\<lambda>y. efold (trace_pixel bm y) xs) ys hg = run_connects ds hg"
    by blast
  have "efold (\<lambda>y. efold (trace_pixel bm y) xs) (y # ys) hg = run_connects (d1 @ ds) hg" for hg
    by (simp add: run1 run run_connects_append ebind_def split: sum.splits)
  with d1 ds show ?case by simp
qed

text \<open>The builder makes exactly the calls of \<open>connect_calls\<close>, in that order, on a fresh grid.\<close>

lemma trace_bitmask_connect_calls:
  assumes "connect_calls bm = Inr cs"
  shows "trace_bitmask bm = run_connects cs (NodeGrid2D_init (ncols bm + 1) (length bm + 1))"
proof -
  from assms have "efold (\<lambda>y. efold (\<lambda>x cs. ebind (connects_at_pixel bm y x) (\<lambda>c. Inr (cs @ c)))
      (range (ncols bm))) (range (length bm)) [] = Inr cs"
    by (simp add: connect_calls_def)
  from trace_rows_connects [OF this] obtain ds where ds: "cs = [] @ ds"
    and run: "\<And>hg. efold (\<lambda>y. efold (trace_pixel bm y) (range (ncols bm))) (range (length bm)) hg
        = run_connects ds hg"
    by blast
  from ds have "ds = cs" by simp
  then show ?thesis
    unfolding trace_bitmask_def Let_def run by simp
qed


lemma py_index_nat [simp]: "i < n \<Longrightarrow> py_index n (int i) = Some i"
  by (simp add: py_index_def)

lemma is_matrix_row: "is_matrix h w m \<Longrightarrow> j < h \<Longrightarrow> length (m ! j) = w"
  by (simp add: is_matrix_def list_all_length)

lemma is_matrix_length: "is_matrix h w m \<Longrightarrow> length m = h"
  by (simp add: is_matrix_def)

lemma is_matrix_ncols: "is_matrix h w m \<Longrightarrow> 0 < h \<Longrightarrow> ncols m = w"
  by (cases m) (auto simp: is_matrix_def ncols_def)

lemma np_getitem_nat:
  "is_matrix h w m \<Longrightarrow> j < h \<Longrightarrow> i < w \<Longrightarrow> np_getitem m (int j) (int i) = Inr (m ! j ! i)"
  by (simp add: np_getitem_def is_matrix_row is_matrix_length)

lemma np_neumann_neighbors_nat:
  assumes m: "is_matrix h w m" and j: "j < h" and i: "i < w"
  shows "np_neumann_neighbors m (int i) (int j) = Inr (neighbors_of h w m i j)"
proof -
  have nc: "ncols m = w" and len: "length m = h"
    using m j by (simp_all add: is_matrix_ncols is_matrix_length)
  have gt: "np_getitem m (int j - 1) (int i) = Inr (m ! (j - 1) ! i)" if "j \<noteq> 0"
  proof -
    from that have e: "int j - 1 = int (j - 1)" by simp
    show ?thesis unfolding e by (rule np_getitem_nat [OF m _ i]) (use j in simp)
  qed
  have gr: "np_getitem m (int j) (int i + 1) = Inr (m ! j ! (i + 1))" if "i + 1 \<noteq> w"
  proof -
    have e: "int i + 1 = int (i + 1)" by simp
    show ?thesis unfolding e by (rule np_getitem_nat [OF m j]) (use i that in simp)
  qed
  have gb: "np_getitem m (int j + 1) (int i) = Inr (m ! (j + 1) ! i)" if "j + 1 \<noteq> h"
  proof -
    have e: "int j + 1 = int (j + 1)" by simp
    show ?thesis unfolding e by (rule np_getitem_nat [OF m _ i]) (use j that in simp)
  qed
  have gl: "np_getitem m (int j) (int i - 1) = Inr (m ! j ! (i - 1))" if "i \<noteq> 0"
  proof -
    from that have e: "int i - 1 = int (i - 1)" by simp
    show ?thesis unfolding e by (rule np_getitem_nat [OF m j]) (use i in simp)
  qed
  have t: "probe (int j \<noteq> 0) m (int j - 1) (int i)
      = Inr (if j \<noteq> 0 then Some (m ! (j - 1) ! i) else None)"
    by (simp add: probe_def gt)
  have "(int i \<noteq> int w - 1) = (i + 1 \<noteq> w)" by auto
  then have r: "probe (int i \<noteq> int w - 1) m (int j) (int i + 1)
      = Inr (if i + 1 \<noteq> w then Some (m ! j ! (i + 1)) else None)"
    by (simp add: probe_def gr)
  have "(int j \<noteq> int h - 1) = (j + 1 \<noteq> h)" by auto
  then have b: "probe (int j \<noteq> int h - 1) m (int j + 1) (int i)
      = Inr (if j + 1 \<noteq> h then Some (m ! (j + 1) ! i) else None)"
    by (simp add: probe_def gb)
  have l: "probe (int i \<noteq> 0) m (int j) (int i - 1)
      = Inr (if i \<noteq> 0 then Some (m ! j ! (i - 1)) else None)"
    by (simp add: probe_def gl)
  have nocheck: "\<not> (int i > int w - 1 \<or> int j > int h - 1 \<or> int i < 0 \<or> int j < 0)"
    using i j by simp
  show ?thesis
    unfolding np_neumann_neighbors_def Let_def nc len if_not_P [OF nocheck] t r b l ebind_Inr
      neighbors_of_def ..
qed


lemma connects_at_pixel_nat:
  "is_matrix h w bm \<Longrightarrow> j < h \<Longrightarrow> i < w \<Longrightarrow>
     connects_at_pixel bm (int j) (int i) = Inr (pixel_calls h w bm j i)"
  by (simp add: connects_at_pixel_def np_getitem_nat np_neumann_neighbors_nat pixel_calls_def)

lemma efold_collect:
  "(\<And>y cs. y \<in> set ys \<Longrightarrow> F (k y) cs = Inr (cs @ G y)) \<Longrightarrow>
     efold F (map k ys) cs0 = Inr (cs0 @ concat (map G ys))"
  by (induction ys arbitrary: cs0) simp_all

lemma connect_calls_eq:
  assumes "is_matrix h w bm"
  shows "connect_calls bm = Inr (concat (map (\<lambda>j. concat (map (pixel_calls h w bm j) [0..<w])) [0..<h]))"
proof (cases "h = 0")
  case True
  with assms show ?thesis
    by (simp add: connect_calls_def range_def is_matrix_def)
next
  case False
  with assms have nc: "ncols bm = w" and len: "length bm = h"
    by (simp_all add: is_matrix_ncols is_matrix_length)
  have row: "efold (\<lambda>x cs. ebind (connects_at_pixel bm (int j) x) (\<lambda>c. Inr (cs @ c))) (range w) cs
      = Inr (cs @ concat (map (pixel_calls h w bm j) [0..<w]))" if "j < h" for j cs
    unfolding range_def
    by (rule efold_collect) (simp add: connects_at_pixel_nat [OF assms that])
  show ?thesis
    unfolding connect_calls_def nc len range_def [of h]
    using efold_collect [of "[0..<h]" _ int "\<lambda>j. concat (map (pixel_calls h w bm j) [0..<w])" "[]"] row
    by simp
qed

lemma set_connect_calls:
  "set (concat (map (\<lambda>j. concat (map (pixel_calls h w bm j) [0..<w])) [0..<h]))
     = (\<Union>j\<in>{..<h}. \<Union>i\<in>{..<w}. set (pixel_calls h w bm j i))"
  by (auto simp: atLeast0LessThan)

lemma pixel_calls_sides:
  "c \<in> set (pixel_calls h w bm j i) \<Longrightarrow>
     bm ! j ! i = 1 \<and>
     c \<in> {(TL (int i) (int j), TR (int i) (int j)), (TR (int i) (int j), BR (int i) (int j)),
          (BR (int i) (int j), BL (int i) (int j)), (BL (int i) (int j), TL (int i) (int j))}"
  by (auto simp: pixel_calls_def pixel_connects_def split: if_splits)

lemma top_call_iff:
  "(TL (int x) (int y), TR (int x) (int y)) \<in> set (pixel_calls h w bm j i) \<longleftrightarrow>
     i = x \<and> j = y \<and> bm ! y ! x = 1 \<and> (y = 0 \<or> bm ! (y - 1) ! x = 0)"
  by (auto simp: pixel_calls_def pixel_connects_def TL_def TR_def BR_def BL_def neighbors_of_def
      zero_or_None_def split: if_splits)

lemma right_call_iff:
  "(TR (int x) (int y), BR (int x) (int y)) \<in> set (pixel_calls h w bm j i) \<longleftrightarrow>
     i = x \<and> j = y \<and> bm ! y ! x = 1 \<and> (x + 1 = w \<or> bm ! y ! (x + 1) = 0)"
  by (auto simp: pixel_calls_def pixel_connects_def TL_def TR_def BR_def BL_def neighbors_of_def
      zero_or_None_def split: if_splits)

lemma bottom_call_iff:
  "(BR (int x) (int y), BL (int x) (int y)) \<in> set (pixel_calls h w bm j i) \<longleftrightarrow>
     i = x \<and> j = y \<and> bm ! y ! x = 1 \<and> (y + 1 = h \<or> bm ! (y + 1) ! x = 0)"
  by (auto simp: pixel_calls_def pixel_connects_def TL_def TR_def BR_def BL_def neighbors_of_def
      zero_or_None_def split: if_splits)

lemma left_call_iff:
  "(BL (int x) (int y), TL (int x) (int y)) \<in> set (pixel_calls h w bm j i) \<longleftrightarrow>
     i = x \<and> j = y \<and> bm ! y ! x = 1 \<and> (x = 0 \<or> bm ! y ! (x - 1) = 0)"
  by (auto simp: pixel_calls_def pixel_connects_def TL_def TR_def BR_def BL_def neighbors_of_def
      zero_or_None_def split: if_splits)




subsection \<open>Split vertices\<close>

lemma length_set_next [simp]: "length (set_next h a v) = length h"
  by (simp add: set_next_def)

lemma length_set_prev [simp]: "length (set_prev h a v) = length h"
  by (simp add: set_prev_def)

lemma coords_set_next [simp]: "coords (set_next h a v ! b) = coords (h ! b)"
  by (cases "a < length h"; cases "a = b") (simp_all add: set_next_def coords_def list_update_beyond)

lemma coords_set_prev [simp]: "coords (set_prev h a v ! b) = coords (h ! b)"
  by (cases "a < length h"; cases "a = b") (simp_all add: set_prev_def coords_def list_update_beyond)

lemma heap_ext_refl [simp]: "heap_ext h h"
  by (simp add: heap_ext_def)

lemma heap_ext_trans: "heap_ext h h' \<Longrightarrow> heap_ext h' h'' \<Longrightarrow> heap_ext h h''"
  by (auto simp: heap_ext_def)

lemma heap_ext_set_next [simp]: "heap_ext h (set_next h a v)"
  by (simp add: heap_ext_def)

lemma heap_ext_set_prev [simp]: "heap_ext h (set_prev h a v)"
  by (simp add: heap_ext_def)

lemma heap_ext_append [simp]: "heap_ext h (h @ ns)"
  by (simp add: heap_ext_def nth_append)

lemma cell_ok_ext: "cell_ok h p c \<Longrightarrow> heap_ext h h' \<Longrightarrow> cell_ok h' p c"
  by (cases c) (auto simp: cell_ok_def heap_ext_def)

lemma cell_ok_addr: "cell_ok h p c \<Longrightarrow> cell_addr c < length h \<and> coords (h ! cell_addr c) = p"
  by (cases c) (auto simp: cell_ok_def cell_addr_def current_def)

lemma cell_ok_coords: "cell_ok h p c \<Longrightarrow> cell_x h c = fst p \<and> cell_y h c = snd p"
  by (cases c) (auto simp: cell_ok_def cell_x_def cell_y_def coords_def)

lemma grid_inv_ext:
  "grid_inv (h, g) \<Longrightarrow> heap_ext h h' \<Longrightarrow> grid_inv (h', g)"
  by (auto simp: grid_inv_def intro: cell_ok_ext)

lemma grid_get_inv:
  assumes "grid_inv (h, g)" "i < grid_width g" "j < grid_height g"
  shows "grid_get g (int j) (int i) = Inr (grid_data g ! j ! i)"
    and "cell_ok h (int i, int j) (grid_data g ! j ! i)"
  using assms
  by (simp_all add: grid_inv_def grid_get_def is_matrix_def list_all_length)

lemma grid_set_inv:
  assumes inv: "grid_inv (h, g)" and i: "i < grid_width g" and j: "j < grid_height g"
    and c: "cell_ok h (int i, int j) c"
  shows "\<exists>g'. grid_set g (int j) (int i) c = Inr g' \<and> grid_inv (h, g')
     \<and> grid_width g' = grid_width g \<and> grid_height g' = grid_height g"
proof -
  let ?g' = "g\<lparr>grid_data := (grid_data g)[j := (grid_data g ! j)[i := c]]\<rparr>"
  from inv have m: "is_matrix (grid_height g) (grid_width g) (grid_data g)"
    and ok: "\<And>j' i'. j' < grid_height g \<Longrightarrow> i' < grid_width g \<Longrightarrow>
        cell_ok h (int i', int j') (grid_data g ! j' ! i')"
    by (simp_all add: grid_inv_def)
  from m have len: "length (grid_data g) = grid_height g"
    and row: "\<And>j'. j' < grid_height g \<Longrightarrow> length (grid_data g ! j') = grid_width g"
    by (simp_all add: is_matrix_def list_all_length)
  have set: "grid_set g (int j) (int i) c = Inr ?g'"
    using i j by (simp add: grid_set_def len row)
  have m': "is_matrix (grid_height g) (grid_width g) (grid_data ?g')"
    using len row j by (auto simp: is_matrix_def list_all_length nth_list_update)
  have "cell_ok h (int i', int j') (grid_data ?g' ! j' ! i')"
    if "j' < grid_height g" "i' < grid_width g" for i' j'
    using that ok [OF that] c len row i j by (auto simp: nth_list_update)
  with set m' show ?thesis by (auto simp: grid_inv_def)
qed


lemma node_next_set_next:
  "node_next (set_next h a v ! b) = (if a = b \<and> a < length h then v else node_next (h ! b))"
  by (cases "a < length h"; cases "a = b") (simp_all add: set_next_def list_update_beyond)

lemma split_inv:
  assumes inv: "grid_inv (h, g)" and i: "i < grid_width g" and j: "j < grid_height g"
    and node: "cell_ok h (int i, int j) node"
    and links: "cell_prev h node \<noteq> None" "cell_next h node \<noteq> None"
  shows "\<exists>h' g' a. split b (h, g) node other = Inr ((h', g'), Real a)
     \<and> grid_inv (h', g') \<and> heap_ext h h' \<and> cell_ok h' (int i, int j) (Real a)
     \<and> grid_width g' = grid_width g \<and> grid_height g' = grid_height g"
proof -
  from links obtain p n0 where p: "cell_prev h node = Some p" and n0: "cell_next h node = Some n0"
    by auto
  from cell_ok_coords [OF node] have xy: "cell_x h node = int i" "cell_y h node = int j"
    by simp_all
  define s0 where "s0 = length h"
  define s1 where "s1 = Suc (length h)"
  define h1 where "h1 = h @ [\<lparr>node_x = int i, node_y = int j, node_next = Some n0, node_prev = Some p\<rparr>,
                   \<lparr>node_x = int i, node_y = int j, node_next = None, node_prev = None\<rparr>]"
  define h2 where "h2 = set_next h1 p (Some s0)"
  have h1s0: "h1 ! s0 = \<lparr>node_x = int i, node_y = int j, node_next = Some n0, node_prev = Some p\<rparr>"
    and h1s1: "h1 ! s1 = \<lparr>node_x = int i, node_y = int j, node_next = None, node_prev = None\<rparr>"
    and len1: "length h1 = length h + 2"
    by (simp_all add: h1_def s0_def s1_def nth_append)
  have "node_next (h2 ! s0) \<noteq> None"
    by (simp add: h2_def node_next_set_next h1s0)
  then obtain n where n: "node_next (h2 ! s0) = Some n" by auto
  define h3 where "h3 = set_prev h2 n (Some s0)"
  define h4 where "h4 = (if b then set_next h3 s1 (Some (cell_addr other))
                         else set_prev h3 s1 (Some (cell_addr other)))"
  define v where "v = \<lparr>vx = int i, vy = int j, real_nodes = (s0, s1), state = 1\<rparr>"
  have len4: "length h4 = length h + 2"
    by (simp add: h4_def h3_def h2_def len1)
  have c4: "coords (h4 ! a) = coords (h1 ! a)" for a
    by (simp add: h4_def h3_def h2_def)
  have ext: "heap_ext h h4"
    unfolding heap_ext_def by (simp add: len4 c4) (simp add: h1_def nth_append)
  have cs0: "coords (h4 ! s0) = (int i, int j)" and cs1: "coords (h4 ! s1) = (int i, int j)"
    unfolding c4 by (simp_all add: h1s0 h1s1 coords_def)
  have vok: "cell_ok h4 (int i, int j) (Virtual v)"
    using cs0 cs1 by (simp add: cell_ok_def v_def len4 s0_def s1_def)
  from grid_set_inv [OF grid_inv_ext [OF inv ext] i j vok]
  obtain g' where g': "grid_set g (int j) (int i) (Virtual v) = Inr g'"
    and inv': "grid_inv (h4, g')"
    and dims: "grid_width g' = grid_width g" "grid_height g' = grid_height g"
    by blast
  have ok1: "cell_ok h4 (int i, int j) (Real s1)"
    using cs1 by (simp add: cell_ok_def len4 s1_def)
  have xy4: "cell_x h4 (Real s1) = int i" "cell_y h4 (Real s1) = int j"
    using cell_ok_coords [OF ok1] by simp_all
  have "split b (h, g) node other = Inr ((h4, g'), Real s1)"
    unfolding split_def
    apply (simp add: Let_def xy p n0 current_def flip_def)
    apply (fold s0_def s1_def h1_def)
    apply (fold h2_def)
    apply (simp add: n Let_def current_def flip_def xy)
    apply (fold h3_def)
    apply (insert xy4 g')
    apply (cases b; simp add: h4_def v_def ebind_def)
    done
  with inv' ext ok1 dims show ?thesis by blast
qed


lemma connect_inv:
  assumes inv: "grid_inv (h, g)"
    and r1: "i1 < grid_width g" "j1 < grid_height g" and n1: "cell_ok h (int i1, int j1) node_1"
    and r2: "i2 < grid_width g" "j2 < grid_height g" and n2: "cell_ok h (int i2, int j2) node_2"
  shows "\<exists>h' g'. connect (h, g) node_1 node_2 = Inr (h', g') \<and> grid_inv (h', g') \<and> heap_ext h h'
     \<and> grid_width g' = grid_width g \<and> grid_height g' = grid_height g"
proof -
  have "\<exists>hA gA m1. (if cell_prev h node_1 \<noteq> None \<and> cell_next h node_1 \<noteq> None
            then split True (h, g) node_1 node_2 else Inr ((h, g), node_1)) = Inr ((hA, gA), m1)
      \<and> grid_inv (hA, gA) \<and> heap_ext h hA \<and> cell_ok hA (int i1, int j1) m1
      \<and> grid_width gA = grid_width g \<and> grid_height gA = grid_height g"
  proof (cases "cell_prev h node_1 \<noteq> None \<and> cell_next h node_1 \<noteq> None")
    case True
    with split_inv [OF inv r1 n1, of True node_2] show ?thesis by auto
  next
    case False
    with inv n1 show ?thesis by auto
  qed
  then obtain hA gA m1 where
    A: "(if cell_prev h node_1 \<noteq> None \<and> cell_next h node_1 \<noteq> None
            then split True (h, g) node_1 node_2 else Inr ((h, g), node_1)) = Inr ((hA, gA), m1)"
    and invA: "grid_inv (hA, gA)" and extA: "heap_ext h hA"
    and m1: "cell_ok hA (int i1, int j1) m1"
    and dimsA: "grid_width gA = grid_width g" "grid_height gA = grid_height g"
    by blast
  from n2 extA have n2A: "cell_ok hA (int i2, int j2) node_2" by (rule cell_ok_ext)
  from r2 dimsA have r2A: "i2 < grid_width gA" "j2 < grid_height gA" by simp_all
  have "\<exists>hB gB m2. (if cell_prev hA node_2 \<noteq> None \<and> cell_next hA node_2 \<noteq> None
            then split False (hA, gA) node_2 m1 else Inr ((hA, gA), node_2)) = Inr ((hB, gB), m2)
      \<and> grid_inv (hB, gB) \<and> heap_ext hA hB
      \<and> grid_width gB = grid_width gA \<and> grid_height gB = grid_height gA"
  proof (cases "cell_prev hA node_2 \<noteq> None \<and> cell_next hA node_2 \<noteq> None")
    case True
    with split_inv [OF invA r2A n2A, of False m1] show ?thesis by auto
  next
    case False
    with invA show ?thesis by auto
  qed
  then obtain hB gB m2 where
    B: "(if cell_prev hA node_2 \<noteq> None \<and> cell_next hA node_2 \<noteq> None
            then split False (hA, gA) node_2 m1 else Inr ((hA, gA), node_2)) = Inr ((hB, gB), m2)"
    and invB: "grid_inv (hB, gB)" and extB: "heap_ext hA hB"
    and dimsB: "grid_width gB = grid_width gA" "grid_height gB = grid_height gA"
    by blast
  let ?h' = "set_prev (set_next hB (cell_addr m1) (Some (cell_addr m2))) (cell_addr m2)
      (Some (cell_addr m1))"
  have eq: "connect (h, g) node_1 node_2 = Inr (?h', gB)"
    by (simp only: connect_def fst_conv A B ebind_Inr prod.case Let_def)
  have "heap_ext hB ?h'"
    by (rule heap_ext_trans [OF heap_ext_set_next heap_ext_set_prev])
  with extA extB have ext: "heap_ext h ?h'"
    by (blast intro: heap_ext_trans)
  from invB \<open>heap_ext hB ?h'\<close> have "grid_inv (?h', gB)" by (rule grid_inv_ext)
  with eq ext dimsA dimsB show ?thesis by auto
qed

lemma connect_at_inv:
  assumes inv: "grid_inv (h, g)"
    and r1: "i1 < grid_width g" "j1 < grid_height g"
    and r2: "i2 < grid_width g" "j2 < grid_height g"
  shows "\<exists>h' g'. connect_at (int i1, int j1) (int i2, int j2) (h, g) = Inr (h', g')
     \<and> grid_inv (h', g') \<and> heap_ext h h'
     \<and> grid_width g' = grid_width g \<and> grid_height g' = grid_height g"
  using connect_inv [OF inv r1 grid_get_inv(2) [OF inv r1] r2 grid_get_inv(2) [OF inv r2]]
  by (simp add: connect_at_def grid_get_inv(1) [OF inv r1] grid_get_inv(1) [OF inv r2])

lemma run_connects_inv:
  assumes "grid_inv (h, g)"
    and "\<forall>c \<in> set cs. corner_in (grid_width g) (grid_height g) (fst c)
        \<and> corner_in (grid_width g) (grid_height g) (snd c)"
  shows "\<exists>h' g'. run_connects cs (h, g) = Inr (h', g') \<and> grid_inv (h', g') \<and> heap_ext h h'
     \<and> grid_width g' = grid_width g \<and> grid_height g' = grid_height g"
  using assms
proof (induction cs arbitrary: h g)
  case Nil
  then show ?case by simp
next
  case (Cons c cs)
  obtain x1 y1 x2 y2 where c: "c = ((x1, y1), (x2, y2))" by (metis surj_pair)
  define i1 j1 i2 j2 where "i1 = nat x1" and "j1 = nat y1" and "i2 = nat x2" and "j2 = nat y2"
  from Cons.prems(2) have "corner_in (grid_width g) (grid_height g) (x1, y1)"
    "corner_in (grid_width g) (grid_height g) (x2, y2)"
    by (simp_all add: c)
  then have r: "i1 < grid_width g" "j1 < grid_height g" "i2 < grid_width g" "j2 < grid_height g"
    and e: "x1 = int i1" "y1 = int j1" "x2 = int i2" "y2 = int j2"
    unfolding corner_in_def i1_def j1_def i2_def j2_def fst_conv snd_conv by linarith+
  from connect_at_inv [OF Cons.prems(1) r] obtain h1 g1 where
    step: "connect_at (int i1, int j1) (int i2, int j2) (h, g) = Inr (h1, g1)"
    and inv1: "grid_inv (h1, g1)" and ext1: "heap_ext h h1"
    and dims1: "grid_width g1 = grid_width g" "grid_height g1 = grid_height g"
    by blast
  from Cons.prems(2) dims1 have
    "\<forall>c \<in> set cs. corner_in (grid_width g1) (grid_height g1) (fst c)
        \<and> corner_in (grid_width g1) (grid_height g1) (snd c)"
    by simp
  from Cons.IH [OF inv1 this] obtain h' g' where
    rest: "run_connects cs (h1, g1) = Inr (h', g')" and inv': "grid_inv (h', g')"
    and ext': "heap_ext h1 h'"
    and dims': "grid_width g' = grid_width g1" "grid_height g' = grid_height g1"
    by blast
  have "run_connects (c # cs) (h, g) = Inr (h', g')"
    by (simp add: c e run_connects_Cons step rest)
  with inv' heap_ext_trans [OF ext1 ext'] dims1 dims' show ?case by auto
qed

lemma length_concat_rows:
  "length (concat (map (\<lambda>y. map (f y) [0..<w]) [0..<h])) = h * w"
  by (induction h) simp_all

lemma nth_concat_rows:
  "x < w \<Longrightarrow> y < h \<Longrightarrow> concat (map (\<lambda>y. map (f y) [0..<w]) [0..<h]) ! (y * w + x) = f y x"
proof (induction h)
  case 0
  then show ?case by simp
next
  case (Suc h)
  show ?case
  proof (cases "y < h")
    case True
    then have "y * w + w \<le> h * w"
      by (metis Suc_leI mult_Suc mult_le_mono1 add.commute)
    with Suc.prems have "y * w + x < h * w" by linarith
    with Suc True show ?thesis
      by (simp add: nth_append length_concat_rows)
  next
    case False
    with Suc.prems have "y = h" by simp
    with Suc.prems show ?thesis
      by (simp add: nth_append length_concat_rows)
  qed
qed

lemma NodeGrid2D_init_inv:
  "grid_inv (NodeGrid2D_init w h)"
  "grid_width (snd (NodeGrid2D_init w h)) = w"
  "grid_height (snd (NodeGrid2D_init w h)) = h"
proof -
  have "cell_ok (fst (NodeGrid2D_init w h)) (int i, int j) (grid_data (snd (NodeGrid2D_init w h)) ! j ! i)"
    if "j < h" "i < w" for i j
  proof -
    from that have "j * w + w \<le> h * w"
      by (metis Suc_leI mult_Suc mult_le_mono1 add.commute)
    with that have "j * w + i < h * w" by linarith
    with that show ?thesis
      by (simp add: NodeGrid2D_init_def cell_ok_def length_concat_rows nth_concat_rows coords_def)
  qed
  then show "grid_inv (NodeGrid2D_init w h)"
    by (simp add: grid_inv_def) (simp add: NodeGrid2D_init_def is_matrix_def list_all_length)
qed (simp_all add: NodeGrid2D_init_def)

text \<open>On every bitmask the builder returns a grid, and never raises.\<close>

lemma trace_bitmask_inv:
  assumes "is_matrix h w bm"
  shows "\<exists>hp g. trace_bitmask bm = Inr (hp, g) \<and> grid_inv (hp, g)
     \<and> grid_width g = ncols bm + 1 \<and> grid_height g = length bm + 1"
proof -
  let ?cs = "concat (map (\<lambda>j. concat (map (pixel_calls h w bm j) [0..<w])) [0..<h])"
  let ?init = "NodeGrid2D_init (ncols bm + 1) (length bm + 1)"
  have calls: "connect_calls bm = Inr ?cs"
    by (rule connect_calls_eq [OF assms])
  have range: "corner_in (grid_width (snd ?init)) (grid_height (snd ?init)) (fst c)
        \<and> corner_in (grid_width (snd ?init)) (grid_height (snd ?init)) (snd c)"
    if "c \<in> set ?cs" for c
  proof -
    from that obtain j i where ji: "j < h" "i < w" and c: "c \<in> set (pixel_calls h w bm j i)"
      unfolding set_connect_calls by blast
    from ji assms have nc: "ncols bm = w" and len: "length bm = h"
      by (simp_all add: is_matrix_ncols is_matrix_length)
    from pixel_calls_sides [OF c] ji show ?thesis
      unfolding NodeGrid2D_init_inv nc len
      by (auto simp: TL_def TR_def BR_def BL_def corner_in_def)
  qed
  obtain h0 g0 where init: "?init = (h0, g0)" by (cases ?init)
  from NodeGrid2D_init_inv [of "ncols bm + 1" "length bm + 1"] range
  have "\<exists>h' g'. run_connects ?cs (h0, g0) = Inr (h', g') \<and> grid_inv (h', g') \<and> heap_ext h0 h'
     \<and> grid_width g' = grid_width g0 \<and> grid_height g' = grid_height g0"
    unfolding init by (intro run_connects_inv) simp_all
  with trace_bitmask_connect_calls [OF calls] NodeGrid2D_init_inv(2,3) [of "ncols bm + 1" "length bm + 1"]
  show ?thesis
    unfolding init by auto
qed



lemma pinched_trace: "trace_bitmask pinched_mask = Inr (pinched_heap, pinched_grid)"
  by code_simp

lemma pinched_extract: "extract_node_loops (pinched_heap, pinched_grid) = Some (Inr [0])"
  by code_simp




subsection \<open>Scale linearity of the path data\<close>

lemma svg_l_draw: "svg_l s n = ''L'' @ draw_vertex (s * node_x n, s * node_y n)"
  by (simp add: svg_l_def draw_vertex_def mult.commute)

lemma svg_m_draw: "svg_m s n = ''M'' @ draw_vertex (s * node_x n, s * node_y n)"
  by (simp add: svg_m_def draw_vertex_def mult.commute)

lemma path_loop_points:
  assumes "path_loop s1 h oc node pd = Some r"
  shows "(\<exists>pts. r = Inr (pd @ concat (map (\<lambda>q. ''L'' @ draw_vertex q) (scale_points s1 pts)) @ ''Z'')
            \<and> (\<forall>s pd'. path_loop s h oc node pd'
                  = Some (Inr (pd' @ concat (map (\<lambda>q. ''L'' @ draw_vertex q) (scale_points s pts)) @ ''Z''))))
       \<or> (r = Inl AttributeError \<and> (\<forall>s pd'. path_loop s h oc node pd' = Some (Inl AttributeError)))"
proof -
  let ?P = "\<lambda>s1 h oc node pd r.
    (\<exists>pts. r = Inr (pd @ concat (map (\<lambda>q. ''L'' @ draw_vertex q) (scale_points s1 pts)) @ ''Z'')
            \<and> (\<forall>s pd'. path_loop s h oc node pd'
                  = Some (Inr (pd' @ concat (map (\<lambda>q. ''L'' @ draw_vertex q) (scale_points s pts)) @ ''Z''))))
       \<or> (r = Inl AttributeError \<and> (\<forall>s pd'. path_loop s h oc node pd' = Some (Inl AttributeError)))"
  show ?thesis
  proof (rule path_loop.raw_induct [where P = ?P, OF _ assms])
    fix f s1 h oc node pd r
    assume IH: "\<And>s1 h oc node pd r. f s1 h oc node pd = Some r \<Longrightarrow> ?P s1 h oc node pd r"
      and body: "(case node_next (h ! node) of
            None \<Rightarrow> Some (Inl AttributeError)
          | Some nx \<Rightarrow>
              if coords (h ! nx) \<noteq> oc
              then f s1 h oc nx (pd @ svg_l s1 (h ! nx))
              else Some (Inr (pd @ svg_z))) = Some r"
    show "?P s1 h oc node pd r"
    proof (cases "node_next (h ! node)")
      case None
      with body show ?thesis
        by (simp add: path_loop.simps [of _ h oc node])
    next
      case (Some nx)
      show ?thesis
      proof (cases "coords (h ! nx) = oc")
        case True
        with Some body have "r = Inr (pd @ ''Z'')" by (simp add: svg_z_def)
        moreover from True Some have "path_loop s h oc node pd' = Some (Inr (pd' @ ''Z''))" for s pd'
          by (simp add: path_loop.simps [of _ h oc node] svg_z_def)
        ultimately have "r = Inr (pd @ concat (map (\<lambda>q. ''L'' @ draw_vertex q) (scale_points s1 [])) @ ''Z'')
            \<and> (\<forall>s pd'. path_loop s h oc node pd'
                  = Some (Inr (pd' @ concat (map (\<lambda>q. ''L'' @ draw_vertex q) (scale_points s [])) @ ''Z'')))"
          by (simp add: scale_points_def)
        then show ?thesis by blast
      next
        case False
        with Some body have rec: "f s1 h oc nx (pd @ svg_l s1 (h ! nx)) = Some r" by simp
        have step: "path_loop s h oc node pd' = path_loop s h oc nx (pd' @ svg_l s (h ! nx))" for s pd'
          using False Some by (simp add: path_loop.simps [of _ h oc node])
        from IH [OF rec] show ?thesis
        proof (elim disjE exE conjE)
          fix pts
          assume r: "r = Inr ((pd @ svg_l s1 (h ! nx)) @ concat (map (\<lambda>q. ''L'' @ draw_vertex q) (scale_points s1 pts)) @ ''Z'')"
            and all: "\<forall>s pd'. path_loop s h oc nx pd'
                  = Some (Inr (pd' @ concat (map (\<lambda>q. ''L'' @ draw_vertex q) (scale_points s pts)) @ ''Z''))"
          let ?pts = "coords (h ! nx) # pts"
          have "r = Inr (pd @ concat (map (\<lambda>q. ''L'' @ draw_vertex q) (scale_points s1 ?pts)) @ ''Z'')"
            by (simp add: r scale_points_def svg_l_draw coords_def)
          moreover have "path_loop s h oc node pd'
                  = Some (Inr (pd' @ concat (map (\<lambda>q. ''L'' @ draw_vertex q) (scale_points s ?pts)) @ ''Z''))" for s pd'
            unfolding step using all by (simp add: scale_points_def svg_l_draw coords_def)
          ultimately show ?thesis by blast
        next
          assume "r = Inl AttributeError" "\<forall>s pd'. path_loop s h oc nx pd' = Some (Inl AttributeError)"
          with step show ?thesis by simp
        qed
      qed
    qed
  qed
qed

lemma scale_points_1 [simp]: "scale_points 1 pts = pts"
  by (simp add: scale_points_def)

text \<open>
  Claim C7: for every loop and every scale \<open>s > 1\<close>, the path data emitted at scale
  \<open>s\<close> is the path data emitted at scale 1 with every coordinate multiplied by \<open>s\<close>:
  the data at scale 1 draws a list of vertices, and the data at scale \<open>s\<close> draws the
  same list with each coordinate \<open>s\<close> times as large.
\<close>

theorem scale_linearity:
  assumes "1 < s" and "loop_to_path_data 1 h origin = Some (Inr d1)"
  shows "\<exists>pts. d1 = draw_path pts \<and> loop_to_path_data s h origin = Some (Inr (draw_path (scale_points s pts)))"
proof -
  from assms(2) have "path_loop 1 h (coords (h ! origin)) origin (svg_m 1 (h ! origin)) = Some (Inr d1)"
    by (simp add: loop_to_path_data_def)
  from path_loop_points [OF this] obtain pts where
    d1: "d1 = svg_m 1 (h ! origin) @ concat (map (\<lambda>q. ''L'' @ draw_vertex q) pts) @ ''Z''"
    and all: "\<And>s pd'. path_loop s h (coords (h ! origin)) origin pd'
       = Some (Inr (pd' @ concat (map (\<lambda>q. ''L'' @ draw_vertex q) (scale_points s pts)) @ ''Z''))"
    by auto
  let ?pts = "coords (h ! origin) # pts"
  have "d1 = draw_path ?pts"
    by (simp add: d1 draw_path_def svg_m_draw coords_def)
  moreover have "loop_to_path_data s h origin = Some (Inr (draw_path (scale_points s ?pts)))"
    unfolding loop_to_path_data_def all
    by (simp add: draw_path_def svg_m_draw coords_def scale_points_def)
  ultimately show ?thesis by blast
qed

lemma unit_path_data: "loop_to_path_data 1 unit_heap 0 = Some (Inr ''M0,0L1,0L1,1L0,1Z'')"
  by code_simp

theorem scale_linearity_witness:
  "(1 :: int) < 2 \<and> loop_to_path_data 1 unit_heap 0 = Some (Inr ''M0,0L1,0L1,1L0,1Z'')
   \<and> (\<exists>pts. ''M0,0L1,0L1,1L0,1Z'' = draw_path pts
         \<and> loop_to_path_data 2 unit_heap 0 = Some (Inr (draw_path (scale_points 2 pts))))"
proof -
  have s: "(1 :: int) < 2" by simp
  from scale_linearity [OF s unit_path_data] s unit_path_data show ?thesis by simp
qed

text \<open>On a closed chain the emitter returns, and emits the chain.\<close>

lemma path_loop_chain:
  assumes "next_chain h a ns b" "\<forall>n \<in> set ns. coords (h ! n) \<noteq> oc" "coords (h ! b) = oc"
  shows "path_loop s h oc a pd
     = Some (Inr (pd @ concat (map (\<lambda>n. ''L'' @ draw_vertex (s * node_x (h ! n), s * node_y (h ! n))) ns) @ ''Z''))"
  using assms
proof (induction ns arbitrary: a pd)
  case Nil
  then show ?case by (simp add: path_loop.simps [of s h oc a] svg_z_def)
next
  case (Cons n ns)
  then show ?case by (simp add: path_loop.simps [of s h oc a] svg_l_draw)
qed

lemma loop_to_path_data_chain:
  assumes "next_chain h origin ns origin" "\<forall>n \<in> set ns. coords (h ! n) \<noteq> coords (h ! origin)"
  shows "loop_to_path_data s h origin
     = Some (Inr (draw_path (scale_points s (map (\<lambda>n. coords (h ! n)) (origin # ns)))))"
  using path_loop_chain [OF assms refl, of s]
  by (simp add: loop_to_path_data_def draw_path_def svg_m_draw scale_points_def coords_def comp_def)


subsection \<open>The outcomes of the loop extractor\<close>

lemma rho_built: "run_connects rho_calls (NodeGrid2D_init 2 2) = Inr (rho_heap, rho_grid)"
  by code_simp

lemma walk_rho_None:
  assumes "walk h oc n vis = Some r"
  shows "\<not> (h = rho_heap \<and> oc = (0, 0) \<and> n \<in> {1, 2, 3})"
proof (rule walk.raw_induct [where P = "\<lambda>h oc n vis r. \<not> (h = rho_heap \<and> oc = (0, 0) \<and> n \<in> {1, 2, 3})", OF _ assms])
  fix f h oc n vis r
  assume IH: "\<And>h oc n vis r. f h oc n vis = Some r \<Longrightarrow> \<not> (h = rho_heap \<and> oc = (0, 0) \<and> n \<in> {1, 2, 3})"
    and body: "(case node_next (h ! n) of None \<Rightarrow> Some (n, vis)
      | Some m \<Rightarrow> if coords (h ! n) \<noteq> oc then f h oc m (insert (coords (h ! n)) vis)
          else Some (n, vis)) = Some r"
  show "\<not> (h = rho_heap \<and> oc = (0, 0) \<and> n \<in> {1, 2, 3})"
  proof
    assume a: "h = rho_heap \<and> oc = (0, 0) \<and> n \<in> {1, 2, 3}"
    then consider "n = 1" | "n = 2" | "n = 3" by auto
    then show False
    proof cases
      case 1
      with a body have "f rho_heap (0, 0) 3 (insert (1, 0) vis) = Some r"
        by (simp add: rho_heap_def coords_def)
      from IH [OF this] show False by simp
    next
      case 2
      with a body have "f rho_heap (0, 0) 1 (insert (0, 1) vis) = Some r"
        by (simp add: rho_heap_def coords_def)
      from IH [OF this] show False by simp
    next
      case 3
      with a body have "f rho_heap (0, 0) 2 (insert (1, 1) vis) = Some r"
        by (simp add: rho_heap_def coords_def)
      from IH [OF this] show False by simp
    qed
  qed
qed

text \<open>
  Claim C9 as stated (for every NodeGrid the extractor either records a loop or
  signals the fatal error) fails on the grid that four calls of \<^verbatim>\<open>connect\<close> make:
  the walk from the node \<open>(0, 0)\<close> enters a cycle that does not contain it, and
  the extractor does not return.
\<close>

theorem extractor_does_not_return:
  "run_connects rho_calls (NodeGrid2D_init 2 2) = Inr (rho_heap, rho_grid)
   \<and> extract_node_loops (rho_heap, rho_grid) = None"
proof -
  have "walk rho_heap (0, 0) 1 {} = None"
    using walk_rho_None [of rho_heap "(0, 0)" 1 "{}"] by (cases "walk rho_heap (0, 0) 1 {}") auto
  moreover have "cell_next rho_heap (Real 0) = Some 1"
    and "cell_coords rho_heap (Real 0) = (0, 0)"
    by (simp_all add: cell_next_def cell_addr_def cell_coords_def cell_x_def cell_y_def rho_heap_def)
  ultimately have "extract_cell rho_heap (Real 0) ([], {}) = None"
    by (simp add: extract_cell_def)
  then have "extract_node_loops (rho_heap, rho_grid) = None"
    by (simp add: extract_node_loops_def rho_grid_def)
  with rho_built show ?thesis by simp
qed


lemma walk_Some_cases:
  assumes "walk h oc n vis = Some r"
  shows "(coords (h ! fst r) = oc \<and> reaches_origin h oc n)
       \<or> (coords (h ! fst r) \<noteq> oc \<and> dead_ends h oc n)"
proof (rule walk.raw_induct [where P = "\<lambda>h oc n vis r. (coords (h ! fst r) = oc \<and> reaches_origin h oc n)
       \<or> (coords (h ! fst r) \<noteq> oc \<and> dead_ends h oc n)", OF _ assms])
  fix f h oc n vis r
  assume IH: "\<And>h oc n vis r. f h oc n vis = Some r \<Longrightarrow>
        (coords (h ! fst r) = oc \<and> reaches_origin h oc n)
       \<or> (coords (h ! fst r) \<noteq> oc \<and> dead_ends h oc n)"
    and body: "(case node_next (h ! n) of None \<Rightarrow> Some (n, vis)
      | Some m \<Rightarrow> if coords (h ! n) \<noteq> oc then f h oc m (insert (coords (h ! n)) vis)
          else Some (n, vis)) = Some r"
  show "(coords (h ! fst r) = oc \<and> reaches_origin h oc n)
       \<or> (coords (h ! fst r) \<noteq> oc \<and> dead_ends h oc n)"
  proof (cases "coords (h ! n) = oc")
    case True
    with body have "fst r = n" by (auto split: option.splits)
    with True show ?thesis by (simp add: reaches_origin.here)
  next
    case False
    show ?thesis
    proof (cases "node_next (h ! n)")
      case None
      with body have "fst r = n" by auto
      with False None show ?thesis by (simp add: dead_ends.stop)
    next
      case (Some m)
      with False body have "f h oc m (insert (coords (h ! n)) vis) = Some r" by simp
      from IH [OF this] False Some show ?thesis
        by (auto intro: reaches_origin.step dead_ends.step)
    qed
  qed
qed

lemma reaches_origin_walk:
  "reaches_origin h oc n \<Longrightarrow> \<exists>r. walk h oc n vis = Some r \<and> coords (h ! fst r) = oc"
proof (induction arbitrary: vis rule: reaches_origin.induct)
  case (here h n oc)
  then show ?case by (simp add: walk.simps [of h oc n] split: option.splits)
next
  case (step h n oc m)
  then show ?case by (simp add: walk.simps [of h oc n])
qed

lemma dead_ends_walk:
  "dead_ends h oc n \<Longrightarrow> \<exists>r. walk h oc n vis = Some r \<and> coords (h ! fst r) \<noteq> oc"
proof (induction arbitrary: vis rule: dead_ends.induct)
  case (stop h n oc)
  then show ?case by (simp add: walk.simps [of h oc n])
next
  case (step h n oc m)
  then show ?case by (simp add: walk.simps [of h oc n])
qed

lemma not_reaches_and_dead_ends: "reaches_origin h oc n \<Longrightarrow> dead_ends h oc n \<Longrightarrow> False"
  using reaches_origin_walk [of h oc n "{}"] dead_ends_walk [of h oc n "{}"] by auto

lemma walk_None_iff:
  "walk h oc n vis = None \<longleftrightarrow> \<not> reaches_origin h oc n \<and> \<not> dead_ends h oc n"
  using reaches_origin_walk [of h oc n vis] dead_ends_walk [of h oc n vis]
    walk_Some_cases [of h oc n vis]
  by (cases "walk h oc n vis") auto

lemma walk_dead_iff:
  "(\<exists>r. walk h oc n vis = Some r \<and> coords (h ! fst r) \<noteq> oc) \<longleftrightarrow> dead_ends h oc n"
  using dead_ends_walk [of h oc n vis] walk_Some_cases [of h oc n vis] by auto

lemma extract_cell_error_iff:
  "extract_cell h c (loops, vis) = Some (Inl e) \<longleftrightarrow>
     e = IsNotEnclosed \<and> (\<exists>n. cell_next h c = Some n \<and> cell_coords h c \<notin> vis
        \<and> dead_ends h (cell_coords h c) n)"
proof (cases "cell_next h c")
  case None
  then show ?thesis by (simp add: extract_cell_def)
next
  case (Some n)
  show ?thesis
  proof (cases "cell_coords h c \<in> vis")
    case True
    with Some show ?thesis by (simp add: extract_cell_def)
  next
    case False
    with Some walk_dead_iff [of h "cell_coords h c" n vis] show ?thesis
      by (cases "walk h (cell_coords h c) n vis") (auto simp: extract_cell_def)
  qed
qed

lemma extract_cell_None_iff:
  "extract_cell h c (loops, vis) = None \<longleftrightarrow>
     (\<exists>n. cell_next h c = Some n \<and> cell_coords h c \<notin> vis
        \<and> \<not> reaches_origin h (cell_coords h c) n \<and> \<not> dead_ends h (cell_coords h c) n)"
proof (cases "cell_next h c")
  case None
  then show ?thesis by (simp add: extract_cell_def)
next
  case (Some n)
  show ?thesis
  proof (cases "cell_coords h c \<in> vis")
    case True
    with Some show ?thesis by (simp add: extract_cell_def)
  next
    case False
    with Some walk_None_iff [of h "cell_coords h c" n vis] show ?thesis
      by (cases "walk h (cell_coords h c) n vis") (auto simp: extract_cell_def split: if_splits)
  qed
qed

lemma oefold_concat:
  "oefold (\<lambda>row. oefold f row) rows s = oefold f (concat rows) s"
proof -
  have app: "oefold f (xs @ ys) s = (case oefold f xs s of None \<Rightarrow> None
      | Some (Inl e) \<Rightarrow> Some (Inl e) | Some (Inr s') \<Rightarrow> oefold f ys s')" for xs ys s
    by (induction xs arbitrary: s) (auto split: option.splits sum.splits)
  show ?thesis
    by (induction rows arbitrary: s) (auto simp: app split: option.splits sum.splits)
qed

lemma oefold_stops_iff:
  assumes "r = None \<or> (\<exists>e. r = Some (Inl e))"
  shows "oefold f xs s = r \<longleftrightarrow>
     (\<exists>pre x post s'. xs = pre @ x # post \<and> oefold f pre s = Some (Inr s') \<and> f x s' = r)"
proof (induction xs arbitrary: s)
  case Nil
  with assms show ?case by auto
next
  case (Cons a xs)
  show ?case
  proof (cases "f a s")
    case None
    show ?thesis
    proof
      assume "oefold f (a # xs) s = r"
      with None have "r = None" by simp
      with None have "a # xs = [] @ a # xs \<and> oefold f [] s = Some (Inr s) \<and> f a s = r" by simp
      then show "\<exists>pre x post s'. a # xs = pre @ x # post \<and> oefold f pre s = Some (Inr s') \<and> f x s' = r"
        by blast
    next
      assume "\<exists>pre x post s'. a # xs = pre @ x # post \<and> oefold f pre s = Some (Inr s') \<and> f x s' = r"
      then obtain pre x post s' where *: "a # xs = pre @ x # post" "oefold f pre s = Some (Inr s')" "f x s' = r"
        by blast
      with None show "oefold f (a # xs) s = r"
        by (cases pre) auto
    qed
  next
    case (Some v)
    show ?thesis
    proof (cases v)
      case (Inl e)
      show ?thesis
      proof
        assume "oefold f (a # xs) s = r"
        with Some Inl have "r = Some (Inl e)" by simp
        with Some Inl have "a # xs = [] @ a # xs \<and> oefold f [] s = Some (Inr s) \<and> f a s = r" by simp
        then show "\<exists>pre x post s'. a # xs = pre @ x # post \<and> oefold f pre s = Some (Inr s') \<and> f x s' = r"
          by blast
      next
        assume "\<exists>pre x post s'. a # xs = pre @ x # post \<and> oefold f pre s = Some (Inr s') \<and> f x s' = r"
        then obtain pre x post s' where *: "a # xs = pre @ x # post" "oefold f pre s = Some (Inr s')" "f x s' = r"
          by blast
        with Some Inl show "oefold f (a # xs) s = r"
          by (cases pre) auto
      qed
    next
      case (Inr s1)
      have "oefold f (a # xs) s = r \<longleftrightarrow> oefold f xs s1 = r"
        using Some Inr by simp
      also have "\<dots> \<longleftrightarrow> (\<exists>pre x post s'. xs = pre @ x # post \<and> oefold f pre s1 = Some (Inr s') \<and> f x s' = r)"
        by (rule Cons.IH)
      also have "\<dots> \<longleftrightarrow> (\<exists>pre x post s'. a # xs = pre @ x # post \<and> oefold f pre s = Some (Inr s') \<and> f x s' = r)"
      proof
        assume "\<exists>pre x post s'. xs = pre @ x # post \<and> oefold f pre s1 = Some (Inr s') \<and> f x s' = r"
        then obtain pre x post s' where "xs = pre @ x # post" "oefold f pre s1 = Some (Inr s')" "f x s' = r"
          by blast
        with Some Inr have "a # xs = (a # pre) @ x # post \<and> oefold f (a # pre) s = Some (Inr s') \<and> f x s' = r"
          by simp
        then show "\<exists>pre x post s'. a # xs = pre @ x # post \<and> oefold f pre s = Some (Inr s') \<and> f x s' = r"
          by blast
      next
        assume "\<exists>pre x post s'. a # xs = pre @ x # post \<and> oefold f pre s = Some (Inr s') \<and> f x s' = r"
        then obtain pre x post s' where *: "a # xs = pre @ x # post" "oefold f pre s = Some (Inr s')" "f x s' = r"
          by blast
        show "\<exists>pre x post s'. xs = pre @ x # post \<and> oefold f pre s1 = Some (Inr s') \<and> f x s' = r"
        proof (cases pre)
          case Nil
          with * Some Inr assms show ?thesis by auto
        next
          case (Cons b pre')
          with * Some Inr have "xs = pre' @ x # post \<and> oefold f pre' s1 = Some (Inr s') \<and> f x s' = r"
            by simp
          then show ?thesis by blast
        qed
      qed
      finally show ?thesis .
    qed
  qed
qed


lemma extract_cell_records:
  assumes "cell_next h c = Some n" "cell_coords h c \<notin> vis" "reaches_origin h (cell_coords h c) n"
  shows "\<exists>node vis'. extract_cell h c (loops, vis) = Some (Inr (loops @ [node], vis'))
     \<and> coords (h ! node) = cell_coords h c"
proof -
  from reaches_origin_walk [OF assms(3), of vis] obtain node vis' where
    "walk h (cell_coords h c) n vis = Some (node, vis')" "coords (h ! node) = cell_coords h c"
    by auto
  with assms(1,2) show ?thesis by (simp add: extract_cell_def)
qed

lemma extract_node_loops_concat:
  "extract_node_loops (h, g) =
     (case oefold (extract_cell h) (concat (grid_data g)) ([], {}) of
        None \<Rightarrow> None
      | Some (Inl e) \<Rightarrow> Some (Inl e)
      | Some (Inr st) \<Rightarrow> Some (Inr (fst st)))"
  by (simp add: extract_node_loops_def oefold_concat)

text \<open>
  Claim C9, as the code has it. For every store and grid: the extractor raises
  only \<^verbatim>\<open>IsNotEnclosed\<close>, and raises it exactly when, after the slots before it went
  through, a slot with a \<^verbatim>\<open>next\<close> and unvisited coordinates starts a walk that
  comes to a node with absent \<^verbatim>\<open>next\<close> before a node with the coordinates of the
  origin; it does not return exactly when such a walk comes to neither; and a walk
  that comes to a node with the coordinates of its origin records that node as a
  loop.
\<close>

theorem extractor_outcome:
  "(extract_node_loops (h, g) = Some (Inl e) \<longleftrightarrow>
      e = IsNotEnclosed \<and> (\<exists>pre c post st n. concat (grid_data g) = pre @ c # post
         \<and> oefold (extract_cell h) pre ([], {}) = Some (Inr st)
         \<and> cell_next h c = Some n \<and> cell_coords h c \<notin> snd st
         \<and> dead_ends h (cell_coords h c) n))
   \<and> (extract_node_loops (h, g) = None \<longleftrightarrow>
      (\<exists>pre c post st n. concat (grid_data g) = pre @ c # post
         \<and> oefold (extract_cell h) pre ([], {}) = Some (Inr st)
         \<and> cell_next h c = Some n \<and> cell_coords h c \<notin> snd st
         \<and> \<not> reaches_origin h (cell_coords h c) n \<and> \<not> dead_ends h (cell_coords h c) n))
   \<and> (\<forall>c n loops visited. cell_next h c = Some n \<and> cell_coords h c \<notin> visited
         \<and> reaches_origin h (cell_coords h c) n \<longrightarrow>
         (\<exists>node visited'. extract_cell h c (loops, visited) = Some (Inr (loops @ [node], visited'))
            \<and> coords (h ! node) = cell_coords h c))"
proof (intro conjI)
  let ?cells = "concat (grid_data g)"
  have "extract_node_loops (h, g) = Some (Inl e) \<longleftrightarrow>
      oefold (extract_cell h) ?cells ([], {}) = Some (Inl e)"
    by (auto simp: extract_node_loops_concat split: option.splits sum.splits)
  also have "\<dots> \<longleftrightarrow> (\<exists>pre c post st. ?cells = pre @ c # post
         \<and> oefold (extract_cell h) pre ([], {}) = Some (Inr st) \<and> extract_cell h c st = Some (Inl e))"
    by (rule oefold_stops_iff) simp
  also have "\<dots> \<longleftrightarrow> e = IsNotEnclosed \<and> (\<exists>pre c post st n. ?cells = pre @ c # post
         \<and> oefold (extract_cell h) pre ([], {}) = Some (Inr st)
         \<and> cell_next h c = Some n \<and> cell_coords h c \<notin> snd st
         \<and> dead_ends h (cell_coords h c) n)"
  proof -
    have E: "extract_cell h c st = Some (Inl e) \<longleftrightarrow> e = IsNotEnclosed
        \<and> (\<exists>n. cell_next h c = Some n \<and> cell_coords h c \<notin> snd st
           \<and> dead_ends h (cell_coords h c) n)" for c st
      using extract_cell_error_iff [of h c "fst st" "snd st" e] by simp
    show ?thesis unfolding E by blast
  qed
  finally show "extract_node_loops (h, g) = Some (Inl e) \<longleftrightarrow>
      e = IsNotEnclosed \<and> (\<exists>pre c post st n. ?cells = pre @ c # post
         \<and> oefold (extract_cell h) pre ([], {}) = Some (Inr st)
         \<and> cell_next h c = Some n \<and> cell_coords h c \<notin> snd st
         \<and> dead_ends h (cell_coords h c) n)" .
  have "extract_node_loops (h, g) = None \<longleftrightarrow>
      oefold (extract_cell h) ?cells ([], {}) = None"
    by (auto simp: extract_node_loops_concat split: option.splits sum.splits)
  also have "\<dots> \<longleftrightarrow> (\<exists>pre c post st. ?cells = pre @ c # post
         \<and> oefold (extract_cell h) pre ([], {}) = Some (Inr st) \<and> extract_cell h c st = None)"
    by (rule oefold_stops_iff) simp
  also have "\<dots> \<longleftrightarrow> (\<exists>pre c post st n. ?cells = pre @ c # post
         \<and> oefold (extract_cell h) pre ([], {}) = Some (Inr st)
         \<and> cell_next h c = Some n \<and> cell_coords h c \<notin> snd st
         \<and> \<not> reaches_origin h (cell_coords h c) n \<and> \<not> dead_ends h (cell_coords h c) n)"
  proof -
    have E: "extract_cell h c st = None \<longleftrightarrow>
        (\<exists>n. cell_next h c = Some n \<and> cell_coords h c \<notin> snd st
           \<and> \<not> reaches_origin h (cell_coords h c) n \<and> \<not> dead_ends h (cell_coords h c) n)" for c st
      using extract_cell_None_iff [of h c "fst st" "snd st"] by simp
    show ?thesis unfolding E by blast
  qed
  finally show "extract_node_loops (h, g) = None \<longleftrightarrow>
      (\<exists>pre c post st n. ?cells = pre @ c # post
         \<and> oefold (extract_cell h) pre ([], {}) = Some (Inr st)
         \<and> cell_next h c = Some n \<and> cell_coords h c \<notin> snd st
         \<and> \<not> reaches_origin h (cell_coords h c) n \<and> \<not> dead_ends h (cell_coords h c) n)" .
  show "\<forall>c n loops visited. cell_next h c = Some n \<and> cell_coords h c \<notin> visited
         \<and> reaches_origin h (cell_coords h c) n \<longrightarrow>
         (\<exists>node visited'. extract_cell h c (loops, visited) = Some (Inr (loops @ [node], visited'))
            \<and> coords (h ! node) = cell_coords h c)"
    using extract_cell_records by blast
qed


lemma unit_reaches: "reaches_origin unit_heap (0, 0) 1"
proof -
  have "reaches_origin unit_heap (0, 0) 0"
    by (rule reaches_origin.here) (simp add: unit_heap_def coords_def)
  then have "reaches_origin unit_heap (0, 0) 2"
    by (rule reaches_origin.step [rotated 2]) (simp_all add: unit_heap_def coords_def)
  then have "reaches_origin unit_heap (0, 0) 3"
    by (rule reaches_origin.step [rotated 2]) (simp_all add: unit_heap_def coords_def)
  then show ?thesis
    by (rule reaches_origin.step [rotated 2]) (simp_all add: unit_heap_def coords_def)
qed

theorem extractor_outcome_witness:
  "cell_next unit_heap (Real 0) = Some 1 \<and> cell_coords unit_heap (Real 0) \<notin> {}
   \<and> reaches_origin unit_heap (cell_coords unit_heap (Real 0)) 1
   \<and> (\<exists>node visited'. extract_cell unit_heap (Real 0) ([], {}) = Some (Inr ([] @ [node], visited'))
        \<and> coords (unit_heap ! node) = cell_coords unit_heap (Real 0))"
proof -
  have a: "cell_next unit_heap (Real 0) = Some 1"
    and b: "cell_coords unit_heap (Real 0) = (0, 0)"
    by (simp_all add: cell_next_def cell_addr_def cell_coords_def cell_x_def cell_y_def unit_heap_def)
  note third = extractor_outcome [of unit_heap rho_grid IsNotEnclosed, THEN conjunct2, THEN conjunct2,
      rule_format, of "Real 0" 1 "{}" "[]"]
  from a b unit_reaches have "cell_next unit_heap (Real 0) = Some 1 \<and> cell_coords unit_heap (Real 0) \<notin> {}
     \<and> reaches_origin unit_heap (cell_coords unit_heap (Real 0)) 1"
    by simp
  with third show ?thesis by simp
qed


subsection \<open>Grouping the items of a matrix by key\<close>

lemma first_occurrences_Nil [simp]: "first_occurrences [] = []"
  by (simp add: first_occurrences_def)

lemma first_occurrences_snoc:
  "first_occurrences (xs @ [x]) = (if x \<in> set xs then first_occurrences xs else first_occurrences xs @ [x])"
  by (simp add: first_occurrences_def)

lemma set_first_occurrences [simp]: "set (first_occurrences xs) = set xs"
  by (simp add: first_occurrences_def)

lemma distinct_first_occurrences [simp]: "distinct (first_occurrences xs)"
  by (simp add: first_occurrences_def)

lemma map_fst_dict_set:
  "map fst (dict_set d k v) = (if k \<in> fst ` set d then map fst d else map fst d @ [k])"
proof (induction d)
  case Nil
  then show ?case by simp
next
  case (Cons a d)
  obtain k' v' where a: "a = (k', v')" by (cases a)
  show ?case
  proof (cases "k' = k")
    case True
    then show ?thesis by (simp add: a)
  next
    case False
    with Cons.IH show ?thesis by (simp add: a)
  qed
qed

lemma set_dict_set:
  "distinct (map fst d) \<Longrightarrow>
     set (dict_set d k v) = insert (k, v) {kv \<in> set d. fst kv \<noteq> k}"
proof (induction d)
  case Nil
  then show ?case by simp
next
  case (Cons a d)
  obtain k' v' where a: "a = (k', v')" by (cases a)
  from Cons.prems have nin: "\<And>w. (k', w) \<notin> set d" and dist: "distinct (map fst d)"
    by (auto simp: a image_iff)
  show ?case
  proof (cases "k' = k")
    case True
    have "{kv \<in> set ((k', v') # d). fst kv \<noteq> k} = set d"
    proof (intro set_eqI iffI)
      fix kv assume "kv \<in> {kv \<in> set ((k', v') # d). fst kv \<noteq> k}"
      with True show "kv \<in> set d" by auto
    next
      fix kv assume kv: "kv \<in> set d"
      with nin [of "snd kv"] True have "fst kv \<noteq> k" by (cases kv) auto
      with kv show "kv \<in> {kv \<in> set ((k', v') # d). fst kv \<noteq> k}" by simp
    qed
    with True show ?thesis unfolding a by simp
  next
    case False
    have "{kv \<in> set ((k', v') # d). fst kv \<noteq> k} = insert (k', v') {kv \<in> set d. fst kv \<noteq> k}"
      using False by auto
    with False Cons.IH [OF dist] show ?thesis unfolding a by (simp add: insert_commute)
  qed
qed

lemma dict_get_dict_set: "dict_get (dict_set d k v) k = Inr v"
  by (induction d) (auto simp: dict_get_def)

lemma dict_get_in:
  "distinct (map fst d) \<Longrightarrow> (k, v) \<in> set d \<Longrightarrow> dict_get d k = Inr v"
  by (simp add: dict_get_def)

lemma dict_get_ex:
  "k \<in> fst ` set d \<Longrightarrow> \<exists>v. dict_get d k = Inr v \<and> (k, v) \<in> set d"
  by (cases "map_of d k") (auto simp: dict_get_def map_of_eq_None_iff dest: map_of_SomeD)

lemma keys_of_snoc:
  "keys_of key (done @ [t]) = keys_of key done @ (case key (snd (snd t)) of None \<Rightarrow> [] | Some k \<Rightarrow> [k])"
  by (simp add: keys_of_def map_filter_def split: option.splits)

lemma set_keys_of:
  "set (keys_of key done) = {k. \<exists>j i p. (j, i, p) \<in> set done \<and> key p = Some k}"
proof (induction "done" rule: rev_induct)
  case Nil
  then show ?case by (simp add: keys_of_def map_filter_def)
next
  case (snoc t ts)
  obtain j i p where t: "t = (j, i, p)" by (cases t) auto
  show ?case
  proof (cases "key p")
    case None
    then show ?thesis
      unfolding keys_of_snoc set_append snoc.IH by (auto simp: t)
  next
    case (Some k)
    then show ?thesis
      unfolding keys_of_snoc set_append snoc.IH by (auto simp: t)
  qed
qed


lemma is_matrix_update:
  "is_matrix h w m \<Longrightarrow> is_matrix h w (m[j := (m ! j)[i := v]])"
proof -
  assume m: "is_matrix h w m"
  have "length (m[j := (m ! j)[i := v]] ! n) = w" if "n < length m" for n
    using that m by (cases "n = j") (simp_all add: is_matrix_def list_all_length)
  with m show ?thesis by (simp add: is_matrix_def list_all_length)
qed

lemma np_setitem_nat:
  "is_matrix h w m \<Longrightarrow> j < h \<Longrightarrow> i < w \<Longrightarrow>
     np_setitem m (int j) (int i) v = Inr (m[j := (m ! j)[i := v]])"
  by (simp add: np_setitem_def is_matrix_def list_all_length)

lemma nth_update2:
  "is_matrix h w m \<Longrightarrow> j < h \<Longrightarrow> i < w \<Longrightarrow> j' < h \<Longrightarrow> i' < w \<Longrightarrow>
     m[j := (m ! j)[i := v]] ! j' ! i' = (if j' = j \<and> i' = i then v else m ! j' ! i')"
  by (auto simp: is_matrix_def list_all_length nth_list_update)

lemma region_of_add:
  assumes r: "region_of key w h done k r" and y: "y < h" and x: "x < w" and p: "key p = Some k"
  shows "\<exists>r'. add_point r (int x, int y) = Inr r'
     \<and> region_of key w h (done @ [(y, x, p)]) k r' \<and> color r' = color r"
proof -
  from r have m: "is_matrix h w (bitmask r)" and wh: "width r = w" "height r = h"
    and bits: "\<And>j i. j < h \<Longrightarrow> i < w \<Longrightarrow> bitmask r ! j ! i
           = (if \<exists>p. (j, i, p) \<in> set done \<and> key p = Some k then 1 else 0)"
    and dat: "data r = {(int i, int j) | i j p. (j, i, p) \<in> set done \<and> key p = Some k}"
    by (simp_all add: region_of_def)
  let ?b = "(bitmask r)[y := (bitmask r ! y)[x := 1]]"
  let ?r = "r\<lparr>bitmask := ?b, data := insert (int x, int y) (data r)\<rparr>"
  have add: "add_point r (int x, int y) = Inr ?r"
    by (simp add: add_point_def np_setitem_nat [OF m y x])
  have "bitmask ?r ! j ! i = (if \<exists>q. (j, i, q) \<in> set (done @ [(y, x, p)]) \<and> key q = Some k then 1 else 0)"
    if "j < h" "i < w" for j i
    using nth_update2 [OF m y x that, of 1] bits [OF that] p by auto
  moreover have "data ?r = {(int i, int j) | i j q. (j, i, q) \<in> set (done @ [(y, x, p)]) \<and> key q = Some k}"
    using p by (auto simp: dat)
  ultimately have "region_of key w h (done @ [(y, x, p)]) k ?r"
    using wh is_matrix_update [OF m, of y x 1] by (simp add: region_of_def)
  with add show ?thesis by auto
qed

lemma region_of_other:
  assumes "region_of key w h done k' r" and "key p \<noteq> Some k'"
  shows "region_of key w h (done @ [(y, x, p)]) k' r"
  using assms by (auto simp: region_of_def)

lemma region_of_fresh:
  assumes "k \<notin> set (keys_of key done)"
    and "width r = w" "height r = h" "bitmask r = np_zeros h w" "data r = {}"
  shows "region_of key w h done k r"
proof -
  from assms(1) have no: "\<not> (\<exists>j i p. (j, i, p) \<in> set done \<and> key p = Some k)"
    by (simp add: set_keys_of)
  then show ?thesis
    using assms(2-) by (auto simp: region_of_def np_zeros_def is_matrix_def list_all_length)
qed


lemma group_step_inv:
  assumes inv: "group_inv key mk w h done st" and y: "y < h" and x: "x < w"
    and mk: "\<forall>p. width (mk p) = w \<and> height (mk p) = h \<and> bitmask (mk p) = np_zeros h w
        \<and> data (mk p) = {}"
    and coh: "\<forall>p q k. key p = Some k \<longrightarrow> key q = Some k \<longrightarrow> color (mk p) = color (mk q)"
  shows "\<exists>st'. group_step key mk y (x, p) st = Inr st'
     \<and> group_inv key mk w h (done @ [(y, x, p)]) st'"
proof -
  obtain known d where st: "st = (known, d)" by (cases st)
  let ?done = "done @ [(y, x, p)]"
  from inv have kn: "known = set (map fst d)"
    and ord: "map fst d = first_occurrences (keys_of key done)"
    and regs: "\<And>k r. (k, r) \<in> set d \<Longrightarrow> region_of key w h done k r
        \<and> (\<forall>q. key q = Some k \<longrightarrow> color r = color (mk q))"
    unfolding group_inv_def st fst_conv snd_conv by blast+
  from ord have dist: "distinct (map fst d)" by simp
  have "set (map fst d) = set (keys_of key done)"
    unfolding ord by (rule set_first_occurrences)
  with kn have kn': "known = set (keys_of key done)" by (simp only:)
  show ?thesis
  proof (cases "key p")
    case None
    have "group_inv key mk w h ?done st"
      unfolding group_inv_def st
      using kn ord regs None by (auto simp: keys_of_snoc intro: region_of_other)
    with None show ?thesis by (simp add: group_step_def)
  next
    case (Some k)
    define d1 where "d1 = (if k \<notin> known then dict_set d k (mk p) else d)"
    define known1 where "known1 = (if k \<notin> known then insert k known else known)"
    have F1: "map fst d1 = first_occurrences (keys_of key ?done)"
    proof (cases "k \<in> known")
      case True
      with kn' ord Some show ?thesis
        by (simp add: d1_def keys_of_snoc first_occurrences_snoc)
    next
      case False
      with kn have "k \<notin> fst ` set d" by simp
      with False kn' ord Some show ?thesis
        by (simp add: d1_def keys_of_snoc first_occurrences_snoc map_fst_dict_set)
    qed
    then have dist1: "distinct (map fst d1)" by simp
    have F2: "known1 = set (map fst d1)"
    proof (cases "k \<in> known")
      case True
      then have "known1 = known" "d1 = d" by (simp_all add: known1_def d1_def)
      with kn show ?thesis by (simp only:)
    next
      case False
      with kn have "k \<notin> fst ` set d" by simp
      with False have "map fst d1 = map fst d @ [k]"
        by (simp add: d1_def map_fst_dict_set)
      then have "set (map fst d1) = insert k (set (map fst d))"
        by (simp only: set_append list.set) simp
      moreover from False have "known1 = insert k known" by (simp add: known1_def)
      ultimately show ?thesis using kn by (simp only:)
    qed
    have F3: "\<exists>r0. (k, r0) \<in> set d1 \<and> region_of key w h done k r0
        \<and> (\<forall>q. key q = Some k \<longrightarrow> color r0 = color (mk q))"
    proof (cases "k \<in> known")
      case True
      with kn have "k \<in> fst ` set d" by simp
      from dict_get_ex [OF this] obtain r0 where "(k, r0) \<in> set d" by blast
      with regs [OF this] True show ?thesis by (auto simp: d1_def)
    next
      case False
      with kn' have "k \<notin> set (keys_of key done)" by simp
      from region_of_fresh [OF this] mk have "region_of key w h done k (mk p)" by simp
      moreover have "(k, mk p) \<in> set d1"
        using False by (simp add: d1_def set_dict_set [OF dist])
      moreover have "\<forall>q. key q = Some k \<longrightarrow> color (mk p) = color (mk q)"
        using coh Some by blast
      ultimately show ?thesis by blast
    qed
    have F4: "(k', r) \<in> set d" if "(k', r) \<in> set d1" "k' \<noteq> k" for k' r
      using that by (auto simp: d1_def set_dict_set [OF dist] split: if_splits)
    from F3 obtain r0 where r0: "(k, r0) \<in> set d1" "region_of key w h done k r0"
      "\<forall>q. key q = Some k \<longrightarrow> color r0 = color (mk q)"
      by blast
    from dict_get_in [OF dist1 r0(1)] have get: "dict_get d1 k = Inr r0" .
    from region_of_add [OF r0(2) y x Some] obtain r' where
      add: "add_point r0 (int x, int y) = Inr r'"
      and r': "region_of key w h ?done k r'" "color r' = color r0"
      by blast
    let ?st' = "(known1, dict_set d1 k r')"
    have step: "group_step key mk y (x, p) st = Inr ?st'"
    proof (cases "k \<in> known")
      case True
      then have e: "d1 = d" "known1 = known" by (simp_all add: known1_def d1_def)
      from get add show ?thesis
        unfolding e group_step_def st by (simp add: Some True Let_def)
    next
      case False
      then have e: "d1 = dict_set d k (mk p)" "known1 = insert k known"
        by (simp_all add: known1_def d1_def)
      from get add show ?thesis
        unfolding e group_step_def st by (simp add: Some False Let_def)
    qed
    have kin: "k \<in> fst ` set d1" using r0(1) by (force simp: image_iff)
    have "group_inv key mk w h ?done ?st'"
      unfolding group_inv_def
    proof (intro conjI allI impI)
      show "fst ?st' = set (map fst (snd ?st'))"
        using kin F2 by (simp add: map_fst_dict_set)
      show "map fst (snd ?st') = first_occurrences (keys_of key ?done)"
        using kin F1 by (simp add: map_fst_dict_set)
    next
      fix k' r assume "(k', r) \<in> set (snd ?st')"
      then have cases: "(k' = k \<and> r = r') \<or> (k' \<noteq> k \<and> (k', r) \<in> set d1)"
        by (auto simp: set_dict_set [OF dist1])
      then show "region_of key w h ?done k' r"
      proof
        assume "k' = k \<and> r = r'"
        with r' show ?thesis by simp
      next
        assume a: "k' \<noteq> k \<and> (k', r) \<in> set d1"
        with F4 have "(k', r) \<in> set d" by blast
        with regs have "region_of key w h done k' r" by blast
        with a Some show ?thesis by (auto intro: region_of_other)
      qed
      fix q assume q: "key q = Some k'"
      from cases show "color r = color (mk q)"
      proof
        assume "k' = k \<and> r = r'"
        with r' r0(3) q show ?thesis by simp
      next
        assume a: "k' \<noteq> k \<and> (k', r) \<in> set d1"
        with F4 have "(k', r) \<in> set d" by blast
        with regs q show ?thesis by blast
      qed
    qed
    with step show ?thesis by blast
  qed
qed


lemma group_fold_inv:
  assumes "group_inv key mk w h done st"
    and "\<forall>t \<in> set items. fst t < h \<and> fst (snd t) < w"
    and mk: "\<forall>p. width (mk p) = w \<and> height (mk p) = h \<and> bitmask (mk p) = np_zeros h w
        \<and> data (mk p) = {}"
    and coh: "\<forall>p q k. key p = Some k \<longrightarrow> key q = Some k \<longrightarrow> color (mk p) = color (mk q)"
  shows "\<exists>st'. efold (\<lambda>(y, xp). group_step key mk y xp) items st = Inr st'
     \<and> group_inv key mk w h (done @ items) st'"
  using assms(1,2)
proof (induction items arbitrary: "done" st)
  case Nil
  then show ?case by simp
next
  case (Cons t items)
  obtain y x p where t: "t = (y, x, p)" by (cases t) auto
  from Cons.prems(2) have yx: "y < h" "x < w" by (simp_all add: t)
  from group_step_inv [OF Cons.prems(1) yx mk coh, of p] obtain st1 where
    step: "group_step key mk y (x, p) st = Inr st1"
    and inv1: "group_inv key mk w h (done @ [(y, x, p)]) st1"
    by blast
  from Cons.prems(2) have "\<forall>t \<in> set items. fst t < h \<and> fst (snd t) < w" by simp
  from Cons.IH [OF inv1 this] step show ?case by (simp add: t)
qed

lemma efold_tagged:
  "efold (f y) xs s = efold (\<lambda>(y, xp). f y xp) (map (\<lambda>xp. (y, xp)) xs) s"
  by (induction xs arbitrary: s) (auto split: sum.splits)

lemma efold_nested:
  "efold (\<lambda>(y, row). efold (f y) (g row)) yrs s
     = efold (\<lambda>(y, xp). f y xp) (concat (map (\<lambda>(y, row). map (\<lambda>xp. (y, xp)) (g row)) yrs)) s"
proof (induction yrs arbitrary: s)
  case Nil
  then show ?case by simp
next
  case (Cons a yrs)
  obtain y row where a: "a = (y, row)" by (cases a)
  show ?case
    by (simp add: a efold_append efold_tagged [of f y] Cons.IH ebind_def split: sum.splits)
qed

lemma efold_indexed:
  "efold (\<lambda>(y, row). efold (f y) (enumerate 0 row)) (enumerate 0 rows) s
     = efold (\<lambda>(y, xp). f y xp) (indexed rows) s"
  unfolding indexed_def by (rule efold_nested)

lemma set_indexed:
  "set (indexed rows) = {(y, x, p). y < length rows \<and> x < length (rows ! y) \<and> p = rows ! y ! x}"
proof (intro set_eqI iffI)
  fix t assume "t \<in> set (indexed rows)"
  then obtain y row xp where "(y, row) \<in> set (enumerate 0 rows)" "xp \<in> set (enumerate 0 row)"
    "t = (y, xp)"
    by (auto simp: indexed_def)
  then show "t \<in> {(y, x, p). y < length rows \<and> x < length (rows ! y) \<and> p = rows ! y ! x}"
    by (cases xp) (auto simp: in_set_enumerate_eq)
next
  fix t assume "t \<in> {(y, x, p). y < length rows \<and> x < length (rows ! y) \<and> p = rows ! y ! x}"
  then obtain y x where t: "t = (y, x, rows ! y ! x)" and y: "y < length rows"
    and x: "x < length (rows ! y)"
    by auto
  from y have "(y, rows ! y) \<in> set (enumerate 0 rows)" by (simp add: in_set_enumerate_eq)
  moreover from x have "(x, rows ! y ! x) \<in> set (enumerate 0 (rows ! y))"
    by (simp add: in_set_enumerate_eq)
  ultimately show "t \<in> set (indexed rows)"
    unfolding indexed_def t by force
qed

lemma map_snd_enumerate_tagged:
  "map (\<lambda>t. snd (snd t)) (map (\<lambda>xp. (y, xp)) (enumerate n row)) = row"
  by (simp add: comp_def)

lemma items_indexed_aux:
  "map (\<lambda>t. snd (snd t)) (concat (map (\<lambda>(y, row). map (\<lambda>xp. (y, xp)) (enumerate 0 row))
      (enumerate n rows))) = concat rows"
  by (induction rows arbitrary: n) (simp_all add: map_snd_enumerate_tagged del: map_map)

lemma items_indexed: "map (\<lambda>t. snd (snd t)) (indexed rows) = concat rows"
  unfolding indexed_def by (rule items_indexed_aux)

lemma keys_of_items: "keys_of key ts = List.map_filter key (map (\<lambda>t. snd (snd t)) ts)"
  by (induction ts) (simp_all add: keys_of_def split: option.splits)

lemma keys_of_indexed: "keys_of key (indexed rows) = List.map_filter key (concat rows)"
  by (simp only: keys_of_items items_indexed)

lemma group_inv_init: "group_inv key mk w h [] ({}, [])"
  by (simp add: group_inv_def keys_of_def map_filter_def)

text \<open>What a grouping loop returns on a matrix of items.\<close>

lemma group_result:
  assumes m: "is_matrix h w rows"
    and mk: "\<forall>p. width (mk p) = w \<and> height (mk p) = h \<and> bitmask (mk p) = np_zeros h w
        \<and> data (mk p) = {}"
    and coh: "\<forall>p q k. key p = Some k \<longrightarrow> key q = Some k \<longrightarrow> color (mk p) = color (mk q)"
  shows "\<exists>known d.
     efold (\<lambda>(y, row). efold (group_step key mk y) (enumerate 0 row)) (enumerate 0 rows) ({}, [])
       = Inr (known, d)
     \<and> map fst d = first_occurrences (List.map_filter key (concat rows))
     \<and> (\<forall>k r. (k, r) \<in> set d \<longrightarrow>
          width r = w \<and> height r = h \<and> is_matrix h w (bitmask r)
          \<and> (\<forall>j < h. \<forall>i < w. bitmask r ! j ! i = (if key (rows ! j ! i) = Some k then 1 else 0))
          \<and> data r = {(int i, int j) | i j. j < h \<and> i < w \<and> key (rows ! j ! i) = Some k}
          \<and> (\<forall>p. key p = Some k \<longrightarrow> color r = color (mk p)))"
proof -
  from m have len: "length rows = h" and row: "\<And>j. j < h \<Longrightarrow> length (rows ! j) = w"
    by (simp_all add: is_matrix_def list_all_length)
  have mem: "(j, i, p) \<in> set (indexed rows) \<longleftrightarrow> j < h \<and> i < w \<and> p = rows ! j ! i" for j i p
    using len row by (auto simp: set_indexed)
  then have "\<forall>t \<in> set (indexed rows). fst t < h \<and> fst (snd t) < w"
    by auto
  from group_fold_inv [OF group_inv_init this mk coh] obtain st where
    run: "efold (\<lambda>(y, xp). group_step key mk y xp) (indexed rows) ({}, []) = Inr st"
    and inv: "group_inv key mk w h (indexed rows) st"
    by auto
  obtain known d where st: "st = (known, d)" by (cases st)
  from inv have ord: "map fst d = first_occurrences (keys_of key (indexed rows))"
    and regs: "\<And>k r. (k, r) \<in> set d \<Longrightarrow> region_of key w h (indexed rows) k r
        \<and> (\<forall>q. key q = Some k \<longrightarrow> color r = color (mk q))"
    unfolding group_inv_def st fst_conv snd_conv by blast+
  have "width r = w \<and> height r = h \<and> is_matrix h w (bitmask r)
          \<and> (\<forall>j < h. \<forall>i < w. bitmask r ! j ! i = (if key (rows ! j ! i) = Some k then 1 else 0))
          \<and> data r = {(int i, int j) | i j. j < h \<and> i < w \<and> key (rows ! j ! i) = Some k}
          \<and> (\<forall>p. key p = Some k \<longrightarrow> color r = color (mk p))"
    if "(k, r) \<in> set d" for k r
  proof -
    from regs [OF that] have r: "region_of key w h (indexed rows) k r"
      and c: "\<forall>q. key q = Some k \<longrightarrow> color r = color (mk q)"
      by blast+
    from r have "\<forall>j < h. \<forall>i < w. bitmask r ! j ! i = (if key (rows ! j ! i) = Some k then 1 else 0)"
      unfolding region_of_def mem by auto
    moreover from r have "data r = {(int i, int j) | i j. j < h \<and> i < w \<and> key (rows ! j ! i) = Some k}"
      unfolding region_of_def mem by auto
    ultimately show ?thesis using r c by (simp add: region_of_def)
  qed
  with run ord show ?thesis
    unfolding efold_indexed st keys_of_indexed by blast
qed



subsection \<open>The partition into color regions\<close>

lemma byte_pixel_color: "byte_color (pixel_color p)"
proof -
  have "\<And>w :: 8 word. 0 \<le> uint w \<and> uint w \<le> 255"
    using uint_lt2p [where 'a = 8] by (simp add: zle_diff1_eq [symmetric])
  then show ?thesis by (cases p) (simp add: byte_color_def pixel_color_def)
qed

lemma Color_of_pixel_color: "Color_of_pixel p = Inr (pixel_color p)"
  by (cases p) (simp add: Color_of_pixel_eq pixel_color_def)

lemma color_region_step_group:
  "color_region_step img y xp st
     = group_step (\<lambda>p. Some (to_hex (pixel_color p)))
         (\<lambda>p. Color2DRegion_init (pixel_color p) (size_w img) (size_h img)) y xp st"
  by (cases xp; cases st) (simp add: color_region_step_def group_step_def Color_of_pixel_color Let_def)

lemma regions_result:
  assumes "wf_Image img"
  shows "\<exists>d. get_distinct_color_regions img = Inr (map snd d)
     \<and> map fst d = first_occurrences (map (\<lambda>p. to_hex (pixel_color p)) (concat (pixels img)))
     \<and> (\<forall>k r. (k, r) \<in> set d \<longrightarrow>
          k = to_hex (color r) \<and> byte_color (color r)
          \<and> width r = size_w img \<and> height r = size_h img
          \<and> is_matrix (size_h img) (size_w img) (bitmask r)
          \<and> (\<forall>j < size_h img. \<forall>i < size_w img. bitmask r ! j ! i
                 = (if pixel_color (pixels img ! j ! i) = color r then 1 else 0))
          \<and> data r = {(int i, int j) | i j. j < size_h img \<and> i < size_w img
                 \<and> pixel_color (pixels img ! j ! i) = color r})"
proof -
  let ?key = "\<lambda>p. Some (to_hex (pixel_color p))"
  let ?mk = "\<lambda>p. Color2DRegion_init (pixel_color p) (size_w img) (size_h img)"
  from assms have m: "is_matrix (size_h img) (size_w img) (pixels img)"
    by (simp add: wf_Image_def)
  have mk: "\<forall>p. width (?mk p) = size_w img \<and> height (?mk p) = size_h img
      \<and> bitmask (?mk p) = np_zeros (size_h img) (size_w img) \<and> data (?mk p) = {}"
    by (simp add: Color2DRegion_init_def)
  have inj: "to_hex (pixel_color p) = to_hex (pixel_color q) \<longleftrightarrow> pixel_color p = pixel_color q" for p q
  proof
    assume "to_hex (pixel_color p) = to_hex (pixel_color q)"
    then show "pixel_color p = pixel_color q"
      by (rule to_hex_inj [OF byte_pixel_color byte_pixel_color])
  next
    assume "pixel_color p = pixel_color q"
    then show "to_hex (pixel_color p) = to_hex (pixel_color q)" by (simp only:)
  qed
  have coh: "\<forall>p q k. ?key p = Some k \<longrightarrow> ?key q = Some k \<longrightarrow> color (?mk p) = color (?mk q)"
    by (auto simp: Color2DRegion_init_def inj)
  from group_result [OF m mk coh] obtain known d where
    run: "efold (\<lambda>(y, row). efold (group_step ?key ?mk y) (enumerate 0 row)) (enumerate 0 (pixels img))
        ({}, []) = Inr (known, d)"
    and ord: "map fst d = first_occurrences (List.map_filter ?key (concat (pixels img)))"
    and regs: "\<And>k r. (k, r) \<in> set d \<Longrightarrow>
          width r = size_w img \<and> height r = size_h img \<and> is_matrix (size_h img) (size_w img) (bitmask r)
          \<and> (\<forall>j < size_h img. \<forall>i < size_w img. bitmask r ! j ! i
                 = (if ?key (pixels img ! j ! i) = Some k then 1 else 0))
          \<and> data r = {(int i, int j) | i j. j < size_h img \<and> i < size_w img
                 \<and> ?key (pixels img ! j ! i) = Some k}
          \<and> (\<forall>p. ?key p = Some k \<longrightarrow> color r = color (?mk p))"
    by blast
  have mf: "List.map_filter ?key xs = map (\<lambda>p. to_hex (pixel_color p)) xs" for xs
    by (induction xs) simp_all
  have get: "get_distinct_color_regions img = Inr (map snd d)"
    unfolding get_distinct_color_regions_def color_region_step_group [abs_def] run by simp
  have "k = to_hex (color r) \<and> byte_color (color r)
          \<and> width r = size_w img \<and> height r = size_h img
          \<and> is_matrix (size_h img) (size_w img) (bitmask r)
          \<and> (\<forall>j < size_h img. \<forall>i < size_w img. bitmask r ! j ! i
                 = (if pixel_color (pixels img ! j ! i) = color r then 1 else 0))
          \<and> data r = {(int i, int j) | i j. j < size_h img \<and> i < size_w img
                 \<and> pixel_color (pixels img ! j ! i) = color r}"
    if kr: "(k, r) \<in> set d" for k r
  proof -
    from kr have "k \<in> set (map fst d)" by force
    then have "k \<in> set (map (\<lambda>p. to_hex (pixel_color p)) (concat (pixels img)))"
      unfolding ord mf by simp
    then obtain p0 where p0: "k = to_hex (pixel_color p0)" by auto
    from regs [OF kr] have "\<forall>p. ?key p = Some k \<longrightarrow> color r = color (?mk p)" by blast
    with p0 have "color r = color (?mk p0)" by blast
    then have c: "color r = pixel_color p0"
      by (simp add: Color2DRegion_init_def)
    with p0 have k: "k = to_hex (color r)" by simp
    have eq: "(?key p = Some k) = (pixel_color p = color r)" for p
      unfolding k c using inj by simp
    from regs [OF kr] show ?thesis
      unfolding eq using k c byte_pixel_color by simp
  qed
  with get ord mf show ?thesis by auto
qed



text \<open>
  Claim C3: on every image the partitioner returns regions such that every pixel
  \<open>(x, y)\<close> is contained in exactly one region; a region contains the pixel (its
  bitmask is 1 there, and the point is in its set) iff its color is the pixel's
  color, and its bitmask is 0 there otherwise. So the bitmasks are pairwise disjoint
  and their union is the full image.
\<close>

theorem color_partition:
  assumes "wf_Image img"
  shows "\<exists>regions. get_distinct_color_regions img = Inr regions
     \<and> (\<forall>y < size_h img. \<forall>x < size_w img.
          (\<exists>!r. r \<in> set regions \<and> bitmask r ! y ! x = 1)
          \<and> (\<forall>r \<in> set regions.
                (bitmask r ! y ! x = 1 \<longleftrightarrow> color r = pixel_color (pixels img ! y ! x))
                \<and> (bitmask r ! y ! x \<noteq> 1 \<longrightarrow> bitmask r ! y ! x = 0)
                \<and> ((int x, int y) \<in> data r \<longleftrightarrow> bitmask r ! y ! x = 1)))"
proof -
  from regions_result [OF assms] obtain d where
    get: "get_distinct_color_regions img = Inr (map snd d)"
    and ord: "map fst d = first_occurrences (map (\<lambda>p. to_hex (pixel_color p)) (concat (pixels img)))"
    and regs: "\<And>k r. (k, r) \<in> set d \<Longrightarrow>
          k = to_hex (color r) \<and> byte_color (color r)
          \<and> (\<forall>j < size_h img. \<forall>i < size_w img. bitmask r ! j ! i
                 = (if pixel_color (pixels img ! j ! i) = color r then 1 else 0))
          \<and> data r = {(int i, int j) | i j. j < size_h img \<and> i < size_w img
                 \<and> pixel_color (pixels img ! j ! i) = color r}"
    by blast
  from ord have dist: "distinct (map fst d)" by simp
  from assms have len: "length (pixels img) = size_h img"
    and row: "\<And>j. j < size_h img \<Longrightarrow> length (pixels img ! j) = size_w img"
    by (simp_all add: wf_Image_def is_matrix_def list_all_length)
  have "(\<exists>!r. r \<in> set (map snd d) \<and> bitmask r ! y ! x = 1)
          \<and> (\<forall>r \<in> set (map snd d).
                (bitmask r ! y ! x = 1 \<longleftrightarrow> color r = pixel_color (pixels img ! y ! x))
                \<and> (bitmask r ! y ! x \<noteq> 1 \<longrightarrow> bitmask r ! y ! x = 0)
                \<and> ((int x, int y) \<in> data r \<longleftrightarrow> bitmask r ! y ! x = 1))"
    if y: "y < size_h img" and x: "x < size_w img" for y x
  proof -
    define c where "c = pixel_color (pixels img ! y ! x)"
    have each: "(bitmask r ! y ! x = 1 \<longleftrightarrow> color r = c)
                \<and> (bitmask r ! y ! x \<noteq> 1 \<longrightarrow> bitmask r ! y ! x = 0)
                \<and> ((int x, int y) \<in> data r \<longleftrightarrow> bitmask r ! y ! x = 1)"
      if "r \<in> set (map snd d)" for r
    proof -
      from that obtain k where "(k, r) \<in> set d" by auto
      from regs [OF this] have b: "bitmask r ! y ! x = (if c = color r then 1 else 0)"
        and dt: "data r = {(int i, int j) | i j. j < size_h img \<and> i < size_w img
                 \<and> pixel_color (pixels img ! j ! i) = color r}"
        using x y unfolding c_def by blast+
      have "(int x, int y) \<in> data r \<longleftrightarrow> c = color r"
        unfolding dt c_def using x y by auto
      with b show ?thesis by auto
    qed
    have "pixels img ! y \<in> set (pixels img)" using y len by simp
    moreover have "pixels img ! y ! x \<in> set (pixels img ! y)" using x row [OF y] by simp
    ultimately have "pixels img ! y ! x \<in> set (concat (pixels img))" by auto
    then have "to_hex c \<in> set (map fst d)"
      unfolding ord c_def by simp
    then obtain r0 where r0: "(to_hex c, r0) \<in> set d" by auto
    from regs [OF r0] have "to_hex c = to_hex (color r0)" "byte_color (color r0)" by blast+
    moreover have "byte_color c" unfolding c_def by (rule byte_pixel_color)
    ultimately have c0: "color r0 = c" using to_hex_inj by metis
    from r0 have in0: "r0 \<in> set (map snd d)" by force
    from each [OF in0] c0 have one: "bitmask r0 ! y ! x = 1" by simp
    have uniq: "r = r0" if "r \<in> set (map snd d)" "bitmask r ! y ! x = 1" for r
    proof -
      from that(1) obtain k where kr: "(k, r) \<in> set d" by auto
      from each [OF that(1)] that(2) have "color r = c" by simp
      with regs [OF kr] have "k = to_hex c" by simp
      with kr have "(to_hex c, r) \<in> set d" by simp
      from eq_key_imp_eq_value [OF dist this r0] show ?thesis .
    qed
    from in0 one uniq have "\<exists>!r. r \<in> set (map snd d) \<and> bitmask r ! y ! x = 1" by blast
    with each show ?thesis unfolding c_def by blast
  qed
  with get show ?thesis by blast
qed


theorem color_partition_witness:
  "wf_Image (ring_image (255, 0, 0, 255) (0, 0, 0, 0))
   \<and> (\<exists>regions. get_distinct_color_regions (ring_image (255, 0, 0, 255) (0, 0, 0, 0)) = Inr regions
        \<and> (\<exists>!r. r \<in> set regions \<and> bitmask r ! 1 ! 1 = 1))"
proof -
  let ?img = "ring_image (255, 0, 0, 255) (0, 0, 0, 0)"
  have wf: "wf_Image ?img"
    by (simp add: wf_Image_def ring_image_def is_matrix_def)
  have "(1 :: nat) < size_h ?img" "(1 :: nat) < size_w ?img"
    by (simp_all add: ring_image_def)
  with color_partition [OF wf] wf show ?thesis by blast
qed

end
